theory Spec2Isabelle
  imports Complex_Main "HOL-Library.Word" "HOL-Library.Multiset"
begin

section \<open>ITQ small-code generation: the quantisation step\<close>

text \<open>
  The development follows \<^verbatim>\<open>add_codes.py\<close>: the worker process
  \<^verbatim>\<open>SmallCodeProcess\<close> and the dispatcher \<^verbatim>\<open>async_compute_smallcodes\<close>.
  numpy itself is not part of the script: the shapes it accepts are written out below,
  and its arithmetic on the entries of the arrays is a parameter.
\<close>

subsection \<open>Data\<close>

text \<open>The only exception numpy raises for mismatched shapes.\<close>

datatype error = ValueError

text \<open>
  A descriptor element as the worker uses it: its identity (a number stands for the
  UUID), the array returned by \<^verbatim>\<open>d.vector()\<close>, and the Python truth value of the object
  (what \<^verbatim>\<open>while packet:\<close> tests).
\<close>

record elem =
  uuid :: nat
  vector :: "real list"
  truthy :: bool

text \<open>A two-dimensional numpy array with its shape; \<open>cells\<close> holds the rows.\<close>

record matrix =
  nrows :: nat
  ncols :: nat
  cells :: "real list list"

definition wf_matrix :: "matrix \<Rightarrow> bool" where
  "wf_matrix R = (length (cells R) = nrows R \<and> list_all (\<lambda>row. length row = ncols R) (cells R))"

subsection \<open>numpy broadcasting, subtraction and dot product\<close>

text \<open>
  What numpy computes on the entries, with the rounding of float64 or the wrap-around of
  an integer dtype, is left open: \<open>np_sub x y\<close> is one entry of \<^verbatim>\<open>m - self.m_vec\<close>, and
  \<open>np_dot row col\<close> is one entry of \<^verbatim>\<open>np.dot(_, self.r)\<close>, for a row of the left array and
  a column of the right one. An entry is taken as the number it stands for, so that
  \<^verbatim>\<open>z >= 0\<close> is the comparison of that number with zero. Nothing that is proved depends
  on what the two operations return.
\<close>

record numpy =
  np_sub :: "real \<Rightarrow> real \<Rightarrow> real"
  np_dot :: "real list \<Rightarrow> real list \<Rightarrow> real"

text \<open>
  Two trailing dimensions are compatible when they are equal or one of them is 1; the
  result has the other one.
\<close>

definition broadcast_dim :: "nat \<Rightarrow> nat \<Rightarrow> nat option" where
  "broadcast_dim a b =
     (if a = b then Some a else if a = 1 then Some b else if b = 1 then Some a else None)"

text \<open>A length-1 axis is repeated to the broadcast length.\<close>

definition stretch :: "nat \<Rightarrow> real list \<Rightarrow> real list" where
  "stretch n xs = (case xs of [x] \<Rightarrow> replicate n x | _ \<Rightarrow> xs)"

text \<open>One row of \<^verbatim>\<open>m - self.m_vec\<close>, for a broadcast length \<open>n\<close>.\<close>

definition sub_row :: "numpy \<Rightarrow> nat \<Rightarrow> real list \<Rightarrow> real list \<Rightarrow> real list" where
  "sub_row ops n v mv = map2 (np_sub ops) (stretch n v) (stretch n mv)"

text \<open>Column \<open>j\<close> of a two-dimensional array.\<close>

definition column :: "matrix \<Rightarrow> nat \<Rightarrow> real list" where
  "column R j = map (\<lambda>k. cells R ! k ! j) [0..<nrows R]"

text \<open>One row of \<^verbatim>\<open>np.dot(_, self.r)\<close>.\<close>

definition dot_row :: "numpy \<Rightarrow> matrix \<Rightarrow> real list \<Rightarrow> real list" where
  "dot_row ops R row = map (\<lambda>j. np_dot ops row (column R j)) [0..<ncols R]"

text \<open>One row of \<^verbatim>\<open>b = np.zeros(z.shape, dtype=np.uint8); b[z >= 0] = 1\<close>.\<close>

definition sign_bits :: "real list \<Rightarrow> 8 word list" where
  "sign_bits z = map (\<lambda>x. if x \<ge> 0 then 1 else 0) z"

text \<open>
  Modelled from the spec: \<^verbatim>\<open>smqtk.utils.bit_utils.bit_vector_to_int\<close> is imported by
  the script and is not part of it. The specification asks for the bits to be packed
  into one unsigned integer under a fixed convention; the convention taken here is that
  the first bit of the vector is the most significant one.
\<close>

definition bit_vector_to_int :: "8 word list \<Rightarrow> int" where
  "bit_vector_to_int bits = foldl (\<lambda>c b. 2 * c + uint b) 0 bits"

text \<open>
  The length of the rows of \<^verbatim>\<open>np.array([d.vector() for d in d_elems])\<close>; an empty list
  gives an array of shape \<open>(0,)\<close>.
\<close>

definition row_length :: "elem list \<Rightarrow> nat" where
  "row_length ds = (case ds of [] \<Rightarrow> 0 | d # _ \<Rightarrow> length (vector d))"

text \<open>
  Lines 88 to 93 (and 100 to 105) of the worker: the pairs it is going to put on the
  output queue for the batch \<open>d_elems\<close>, or the exception numpy raises. Vectors of
  different lengths do not form a numeric array; that case is taken to raise as well.
\<close>

definition smallcodes ::
  "numpy \<Rightarrow> matrix \<Rightarrow> real list \<Rightarrow> elem list \<Rightarrow> error + (int \<times> elem) list" where
  "smallcodes ops R mv d_elems =
     (let L = row_length d_elems in
      if \<not> list_all (\<lambda>d. length (vector d) = L) d_elems then Inl ValueError
      else case broadcast_dim L (length mv) of
             None \<Rightarrow> Inl ValueError
           | Some n \<Rightarrow>
               if n \<noteq> nrows R then Inl ValueError
               else Inr (zip (map (\<lambda>d. bit_vector_to_int
                                (sign_bits (dot_row ops R (sub_row ops n (vector d) mv)))) d_elems)
                             d_elems))"


subsection \<open>The worker process\<close>

text \<open>
  What the dispatcher and a worker are built with: \<^verbatim>\<open>self.r\<close>, \<^verbatim>\<open>self.m_vec\<close> and
  \<^verbatim>\<open>self.batch\<close> of \<^verbatim>\<open>SmallCodeProcess\<close>, and the number of workers \<^verbatim>\<open>procs\<close>;
  with them, the arithmetic of the numpy that the workers run on.
  The dispatcher builds its workers with the default \<^verbatim>\<open>batch=500\<close>; the batch size is
  kept general here, and what is proved holds for every value of it. A \<^verbatim>\<open>procs\<close> below
  zero gives no worker and an unbounded output queue, as \<^verbatim>\<open>procs = 0\<close> does.
\<close>

record params =
  np :: numpy
  rotation :: matrix
  m_vec :: "real list"
  batch :: nat
  procs :: nat


text \<open>An item of the input queue: the terminal value \<^verbatim>\<open>None\<close> or an element.\<close>

datatype packet = PNone | PElem elem

text \<open>The test of \<^verbatim>\<open>while packet:\<close>.\<close>

fun py_bool :: "packet \<Rightarrow> bool" where
  "py_bool PNone = False"
| "py_bool (PElem de) = truthy de"

text \<open>
  Where a worker is between two queue operations:
  \<^item> \<open>Get d_elems\<close>: in \<^verbatim>\<open>self.in_q.get()\<close> (line 77 or 96) with the batch so far;
  \<^item> \<open>Put outs again\<close>: in one of the two loops of \<^verbatim>\<open>self.out_q.put\<close>, with the pairs
    still to put; \<open>again\<close> holds in the loop of lines 92 and 93, after which the worker
    reads again, and not in the loop of lines 104 and 105, after which \<^verbatim>\<open>run\<close> returns;
  \<^item> \<open>Exited\<close>: \<^verbatim>\<open>run\<close> has returned;
  \<^item> \<open>Crashed e\<close>: \<^verbatim>\<open>run\<close> was left by the exception \<open>e\<close>;
  \<^item> \<open>Killed\<close>: the dispatcher called \<^verbatim>\<open>terminate()\<close> on the live process.
\<close>

datatype wstate =
    Get "elem list"
  | Put "(int \<times> elem) list" bool
  | Exited
  | Crashed error
  | Killed

text \<open>Lines 85 to 96: the loop body once the element is appended to \<open>d_elems\<close>.\<close>

definition loop_body :: "params \<Rightarrow> elem list \<Rightarrow> wstate" where
  "loop_body P d_elems =
     (if length d_elems \<ge> batch P then
        (case smallcodes (np P) (rotation P) (m_vec P) d_elems of
           Inl e \<Rightarrow> Crashed e
         | Inr outs \<Rightarrow> Put outs True)
      else Get d_elems)"

text \<open>Lines 98 to 106: what follows the loop.\<close>

definition after_loop :: "params \<Rightarrow> elem list \<Rightarrow> wstate" where
  "after_loop P d_elems =
     (if d_elems \<noteq> [] then
        (case smallcodes (np P) (rotation P) (m_vec P) d_elems of
           Inl e \<Rightarrow> Crashed e
         | Inr outs \<Rightarrow> Put outs False)
      else Exited)"

text \<open>What a worker does with the packet that \<^verbatim>\<open>in_q.get()\<close> returned.\<close>

definition on_packet :: "params \<Rightarrow> elem list \<Rightarrow> packet \<Rightarrow> wstate" where
  "on_packet P d_elems packet =
     (if py_bool packet then
        (case packet of
           PElem descr_elem \<Rightarrow> loop_body P (d_elems @ [descr_elem])
         | PNone \<Rightarrow> after_loop P d_elems)
      else after_loop P d_elems)"

text \<open>
  \<^verbatim>\<open>SmallCodeProcess.run\<close> as a function of the packets that \<^verbatim>\<open>in_q.get()\<close> hands
  to this worker, in order, starting with the batch \<open>d_elems\<close>: the pairs it puts on the
  output queue, in order, and where it ends. \<open>Get d\<close> at the end says that the packets
  are used up and the worker waits in \<^verbatim>\<open>in_q.get()\<close>.
\<close>

fun run :: "params \<Rightarrow> elem list \<Rightarrow> packet list \<Rightarrow> (int \<times> elem) list \<times> wstate" where
  "run P d_elems [] = ([], Get d_elems)"
| "run P d_elems (packet # ps) =
     (case on_packet P d_elems packet of
        Get d' \<Rightarrow> run P d' ps
      | Put outs again \<Rightarrow>
          (if again then (case run P [] ps of (outs', w) \<Rightarrow> (outs @ outs', w))
           else (outs, Exited))
      | w \<Rightarrow> ([], w))"

subsection \<open>The dispatcher and the processes together\<close>

text \<open>
  The dispatcher and the workers run side by side and share the two queues only. A state
  holds where each process is and what the queues hold, a queue being the list of its
  items, oldest first; a move is what one process does up to and including its next
  queue operation. The caller's \<^verbatim>\<open>descr_elements\<close> is a finite list.
\<close>

text \<open>
  Where \<^verbatim>\<open>async_compute_smallcodes\<close> is:
  \<^item> \<open>Feeding rest s\<close>: in the loop of lines 136 to 144, with the elements still to send
    and the count \<open>s\<close>;
  \<^item> \<open>Sentinels j s\<close>: in the loop of lines 146 and 147, \<open>j\<close> terminal values to go;
  \<^item> \<open>Collecting k acc\<close>: in the loop of lines 153 to 162, \<open>k\<close> iterations to go and
    \<^verbatim>\<open>sc_d_return\<close> so far;
  \<^item> \<open>Returned acc\<close>: the \<^verbatim>\<open>finally\<close> block has run and the call has returned \<open>acc\<close>.
\<close>

datatype mstate =
    Feeding "elem list" nat
  | Sentinels nat nat
  | Collecting nat "(int \<times> elem) list"
  | Returned "(int \<times> elem) list"

record state =
  main :: mstate
  in_q :: "packet list"
  out_q :: "(int \<times> elem) list"
  workers :: "wstate list"

text \<open>The workers are started before the first element is sent.\<close>

definition init :: "params \<Rightarrow> elem list \<Rightarrow> state" where
  "init P descr_elements =
     \<lparr>main = Feeding descr_elements 0, in_q = [], out_q = [],
      workers = replicate (procs P) (Get [])\<rparr>"

text \<open>
  \<^verbatim>\<open>multiprocessing.Queue(procs*2)\<close>: a \<^verbatim>\<open>put\<close> blocks while \<open>procs*2\<close> items are in
  the queue. A size of 0 makes the queue unbounded.
\<close>

definition out_q_full :: "params \<Rightarrow> (int \<times> elem) list \<Rightarrow> bool" where
  "out_q_full P q = (0 < 2 * procs P \<and> 2 * procs P \<le> length q)"

text \<open>\<^verbatim>\<open>if w.is_alive(): w.terminate()\<close>.\<close>

definition terminate :: "wstate \<Rightarrow> wstate" where
  "terminate w = (case w of Get _ \<Rightarrow> Killed | Put _ _ \<Rightarrow> Killed | _ \<Rightarrow> w)"

text \<open>
  One move of the dispatcher; \<open>None\<close> when it is blocked in \<^verbatim>\<open>out_q.get()\<close> or has
  returned. The \<^verbatim>\<open>finally\<close> block is one move: a move that a worker makes while the
  dispatcher goes through the list of workers could as well be made before that move.
  The block is reached only when the \<^verbatim>\<open>try\<close> block is left, here by \<^verbatim>\<open>return\<close>.
\<close>

definition step_main :: "params \<Rightarrow> state \<Rightarrow> state option" where
  "step_main P st =
     (case main st of
        Feeding [] s \<Rightarrow> Some (st\<lparr>main := Sentinels (procs P) s\<rparr>)
      | Feeding (de # rest) s \<Rightarrow>
          Some (st\<lparr>main := Feeding rest (s + 1), in_q := in_q st @ [PElem de]\<rparr>)
      | Sentinels 0 s \<Rightarrow> Some (st\<lparr>main := Collecting s []\<rparr>)
      | Sentinels (Suc j) s \<Rightarrow>
          Some (st\<lparr>main := Sentinels j s, in_q := in_q st @ [PNone]\<rparr>)
      | Collecting 0 acc \<Rightarrow>
          Some (st\<lparr>main := Returned acc, workers := map terminate (workers st)\<rparr>)
      | Collecting (Suc k) acc \<Rightarrow>
          (case out_q st of
             [] \<Rightarrow> None
           | x # q \<Rightarrow> Some (st\<lparr>main := Collecting k (acc @ [x]), out_q := q\<rparr>))
      | Returned acc \<Rightarrow> None)"

text \<open>
  One move of worker \<open>i\<close>; \<open>None\<close> when it is blocked in a queue operation or is not
  running any longer.
\<close>

definition step_worker :: "params \<Rightarrow> nat \<Rightarrow> state \<Rightarrow> state option" where
  "step_worker P i st =
     (if length (workers st) \<le> i then None
      else case workers st ! i of
             Get d_elems \<Rightarrow>
               (case in_q st of
                  [] \<Rightarrow> None
                | packet # q \<Rightarrow>
                    Some (st\<lparr>in_q := q,
                             workers := (workers st)[i := on_packet P d_elems packet]\<rparr>))
           | Put [] again \<Rightarrow>
               Some (st\<lparr>workers := (workers st)[i := (if again then Get [] else Exited)]\<rparr>)
           | Put (x # outs) again \<Rightarrow>
               (if out_q_full P (out_q st) then None
                else Some (st\<lparr>out_q := out_q st @ [x],
                              workers := (workers st)[i := Put outs again]\<rparr>))
           | _ \<Rightarrow> None)"

datatype pid = Main | Worker nat

fun step :: "params \<Rightarrow> pid \<Rightarrow> state \<Rightarrow> state option" where
  "step P Main st = step_main P st"
| "step P (Worker i) st = step_worker P i st"

text \<open>
  An execution is a schedule, the list of the processes that move, in order; it is
  \<open>None\<close> when the schedule asks a process to move that cannot.
\<close>

fun exec :: "params \<Rightarrow> pid list \<Rightarrow> state \<Rightarrow> state option" where
  "exec P [] st = Some st"
| "exec P (p # sched) st =
     (case step P p st of None \<Rightarrow> None | Some st' \<Rightarrow> exec P sched st')"

text \<open>Some process can move.\<close>

definition enabled :: "params \<Rightarrow> state \<Rightarrow> bool" where
  "enabled P st =
     (step_main P st \<noteq> None \<or>
      list_ex (\<lambda>i. step_worker P i st \<noteq> None) [0..<length (workers st)])"

subsection \<open>The specification's quantiser\<close>

text \<open>
  The specification's formula for one vector: \<open>z = (v - mean) \<cdot> rotation\<close>, a vector of
  real numbers with one component per column of the rotation.
\<close>

definition project :: "matrix \<Rightarrow> real list \<Rightarrow> real list \<Rightarrow> real list" where
  "project R mean v =
     map (\<lambda>i. \<Sum>k\<leftarrow>[0..<nrows R]. (v ! k - mean ! k) * cells R ! k ! i) [0..<ncols R]"

text \<open>
  The bit-packed sign pattern of \<open>z\<close>: component \<open>i\<close> contributes the bit of weight
  \<open>2 ^ (B - 1 - i)\<close> exactly when \<open>z ! i \<ge> 0\<close>.
\<close>

definition sign_code :: "real list \<Rightarrow> int" where
  "sign_code z = (\<Sum>i\<leftarrow>[0..<length z]. if z ! i \<ge> 0 then 2 ^ (length z - 1 - i) else 0)"


text \<open>The elements among a list of packets.\<close>

fun packet_elems :: "packet list \<Rightarrow> elem list" where
  "packet_elems [] = []"
| "packet_elems (PNone # ps) = packet_elems ps"
| "packet_elems (PElem de # ps) = de # packet_elems ps"

text \<open>
  The transform parameters and the elements fit: the rotation is a \<open>D \<times> B\<close> array, the
  mean vector and every element's vector have length \<open>D\<close>, and every element is a true
  value for Python, as an object without \<^verbatim>\<open>__nonzero__\<close> and \<^verbatim>\<open>__len__\<close> is.
\<close>

definition conforming :: "params \<Rightarrow> elem list \<Rightarrow> bool" where
  "conforming P es =
     (wf_matrix (rotation P) \<and> length (m_vec P) = nrows (rotation P) \<and>
      list_all (\<lambda>e. truthy e \<and> length (vector e) = nrows (rotation P)) es)"

subsection \<open>A small instance\<close>

text \<open>
  Arithmetic without rounding, as that of float64 is on the small whole numbers of this
  instance.
\<close>

definition ex_np :: numpy where
  "ex_np = \<lparr>np_sub = (-), np_dot = (\<lambda>row col. \<Sum>(x, y)\<leftarrow>zip row col. x * y)\<rparr>"

definition ex_R :: matrix where
  "ex_R = \<lparr>nrows = 2, ncols = 2, cells = [ [1, 0], [0, -1] ]\<rparr>"

definition ex_P :: params where
  "ex_P = \<lparr>np = ex_np, rotation = ex_R, m_vec = [1, 4], batch = 2, procs = 2\<rparr>"

definition ex_elem :: "nat \<Rightarrow> real \<Rightarrow> real \<Rightarrow> elem" where
  "ex_elem n x y = \<lparr>uuid = n, vector = [x, y], truthy = True\<rparr>"

definition ex_es :: "elem list" where
  "ex_es = [ex_elem 1 3 4, ex_elem 2 0 5, ex_elem 3 0 1]"

text \<open>An element whose vector is too long, one whose vector has length 1, and a false one.\<close>

definition ex_long :: elem where
  "ex_long = \<lparr>uuid = 4, vector = [1, 2, 3], truthy = True\<rparr>"

definition ex_short :: elem where
  "ex_short = \<lparr>uuid = 5, vector = [5], truthy = True\<rparr>"

definition ex_falsy :: elem where
  "ex_falsy = \<lparr>uuid = 6, vector = [3, 4], truthy = False\<rparr>"

text \<open>A complete execution for \<open>ex_es\<close> with two workers and batches of two.\<close>

definition ex_sched :: "pid list" where
  "ex_sched =
     [Main, Main, Worker 0, Main, Worker 1, Worker 0, Main, Main, Worker 0, Main, Main,
      Worker 1, Main, Worker 1, Worker 0, Worker 1, Main, Worker 0, Main, Worker 0, Main]"

text \<open>An execution for \<open>[ex_long]\<close> up to the failure of worker 0.\<close>

definition ex_sched_crash :: "pid list" where
  "ex_sched_crash = [Main, Main, Main, Main, Main, Worker 0, Worker 0]"

definition ex_P1 :: params where
  "ex_P1 = \<lparr>np = ex_np, rotation = ex_R, m_vec = [1, 4], batch = 2, procs = 1\<rparr>"

text \<open>
  An execution for \<open>ex_es\<close> with one worker, up to the point where the worker has
  filled the output queue and waits to put the pair of its last batch.
\<close>

definition ex_sched_full :: "pid list" where
  "ex_sched_full =
     [Main, Main, Main, Main, Main, Main, Worker 0, Worker 0, Worker 0, Worker 0, Worker 0,
      Worker 0, Worker 0]"




subsection \<open>Bookkeeping for the executions\<close>

text \<open>The elements a worker holds: its batch, or the pairs it has still to put.\<close>

definition held :: "wstate \<Rightarrow> elem list" where
  "held w = (case w of Get d_elems \<Rightarrow> d_elems | Put outs _ \<Rightarrow> map snd outs | _ \<Rightarrow> [])"

definition crashed :: "wstate \<Rightarrow> bool" where
  "crashed w = (case w of Crashed _ \<Rightarrow> True | _ \<Rightarrow> False)"

definition alive :: "wstate \<Rightarrow> bool" where
  "alive w = (case w of Get _ \<Rightarrow> True | Put _ _ \<Rightarrow> True | _ \<Rightarrow> False)"

definition held_all :: "wstate list \<Rightarrow> elem multiset" where
  "held_all ws = (\<Sum>w\<leftarrow>ws. mset (held w))"

definition crashed_count :: "wstate list \<Rightarrow> nat" where
  "crashed_count ws = (\<Sum>w\<leftarrow>ws. if crashed w then 1 else 0)"

text \<open>
  A worker that has left its loop: it has returned, or it is putting the pairs of its
  last batch.
\<close>

definition finishing :: "wstate \<Rightarrow> bool" where
  "finishing w = (case w of Exited \<Rightarrow> True | Put _ again \<Rightarrow> \<not> again | _ \<Rightarrow> False)"

definition finishing_count :: "wstate list \<Rightarrow> nat" where
  "finishing_count ws = (\<Sum>w\<leftarrow>ws. if finishing w then 1 else 0)"

text \<open>The elements the dispatcher has not sent yet, and the pairs it has collected.\<close>

definition unsent :: "mstate \<Rightarrow> elem list" where
  "unsent m = (case m of Feeding rest _ \<Rightarrow> rest | _ \<Rightarrow> [])"

definition collected :: "mstate \<Rightarrow> (int \<times> elem) list" where
  "collected m = (case m of Collecting _ acc \<Rightarrow> acc | Returned acc \<Rightarrow> acc | _ \<Rightarrow> [])"

definition returned :: "mstate \<Rightarrow> bool" where
  "returned m = (case m of Returned _ \<Rightarrow> True | _ \<Rightarrow> False)"

text \<open>The packets the dispatcher is still going to put on the input queue.\<close>

definition main_puts :: "params \<Rightarrow> mstate \<Rightarrow> packet list" where
  "main_puts P m =
     (case m of
        Feeding rest _ \<Rightarrow> map PElem rest @ replicate (procs P) PNone
      | Sentinels j _ \<Rightarrow> replicate j PNone
      | _ \<Rightarrow> [])"

text \<open>Every element that is somewhere between the caller's sequence and the result.\<close>

definition in_transit :: "state \<Rightarrow> elem multiset" where
  "in_transit st =
     mset (unsent (main st)) + mset (packet_elems (in_q st)) + held_all (workers st)
     + mset (map snd (out_q st)) + mset (map snd (collected (main st)))"

text \<open>The dispatcher's counters, for \<open>n\<close> elements in all.\<close>

definition counters_ok :: "nat \<Rightarrow> mstate \<Rightarrow> bool" where
  "counters_ok n m =
     (case m of
        Feeding rest s \<Rightarrow> s + length rest = n
      | Sentinels j s \<Rightarrow> s = n
      | Collecting k acc \<Rightarrow> k + length acc = n
      | Returned acc \<Rightarrow> length acc = n)"

text \<open>What holds in every state of every execution.\<close>

definition ginv :: "params \<Rightarrow> elem list \<Rightarrow> state \<Rightarrow> bool" where
  "ginv P es st =
     (length (workers st) = procs P \<and>
      length (out_q st) \<le> 2 * procs P \<and>
      in_transit st \<subseteq># mset es \<and>
      size (in_transit st) + crashed_count (workers st) \<le> length es \<and>
      counters_ok (length es) (main st) \<and>
      (\<exists>consumed. consumed @ in_q st @ main_puts P (main st)
                   = map PElem es @ replicate (procs P) PNone) \<and>
      (if returned (main st) then list_all (\<lambda>w. \<not> alive w) (workers st)
       else Killed \<notin> set (workers st)))"

text \<open>The number of terminal values in a queue.\<close>

definition sentinels_in :: "packet list \<Rightarrow> nat" where
  "sentinels_in q = length (filter (\<lambda>p. p = PNone) q)"

text \<open>The elements of a queue come before its terminal values.\<close>

definition sentinels_last :: "packet list \<Rightarrow> bool" where
  "sentinels_last q = (q = map PElem (packet_elems q) @ replicate (sentinels_in q) PNone)"

definition to_send :: "params \<Rightarrow> mstate \<Rightarrow> nat" where
  "to_send P m = (case m of Feeding _ _ \<Rightarrow> procs P | Sentinels j _ \<Rightarrow> j | _ \<Rightarrow> 0)"

text \<open>
  What holds in addition, until the dispatcher returns, when the parameters and the
  elements fit.
\<close>

definition cinv :: "params \<Rightarrow> elem list \<Rightarrow> state \<Rightarrow> bool" where
  "cinv P es st =
     (returned (main st) \<or>
      (in_transit st = mset es \<and>
       list_all (\<lambda>w. alive w \<or> w = Exited) (workers st) \<and>
       sentinels_in (in_q st) + finishing_count (workers st) + to_send P (main st) = procs P \<and>
       sentinels_last (in_q st) \<and>
       (0 < finishing_count (workers st) \<longrightarrow> packet_elems (in_q st) = [])))"

text \<open>A bound on the number of moves that are left.\<close>

definition mu_main :: "params \<Rightarrow> mstate \<Rightarrow> nat" where
  "mu_main P m =
     (case m of
        Feeding rest s \<Rightarrow> 6 * length rest + s + 5 * procs P + 3
      | Sentinels j s \<Rightarrow> 5 * j + s + 2
      | Collecting k acc \<Rightarrow> k + 1
      | Returned acc \<Rightarrow> 0)"

definition mu_worker :: "wstate \<Rightarrow> nat" where
  "mu_worker w =
     (case w of Get d_elems \<Rightarrow> 2 * length d_elems + 1
              | Put outs again \<Rightarrow> 2 * length outs + 2
              | _ \<Rightarrow> 0)"

definition mu :: "params \<Rightarrow> state \<Rightarrow> nat" where
  "mu P st =
     mu_main P (main st) + 4 * length (in_q st) + (\<Sum>w\<leftarrow>workers st. mu_worker w)
     + length (out_q st)"

section \<open>Properties of the quantisation step\<close>

lemma b2i_snoc: "bit_vector_to_int (bs @ [b]) = 2 * bit_vector_to_int bs + uint b"
  by (simp add: bit_vector_to_int_def)

lemma b2i_Nil: "bit_vector_to_int [] = 0"
  by (simp add: bit_vector_to_int_def)

lemma uint_sign_bit: "b \<in> set (sign_bits z) \<Longrightarrow> uint b = 0 \<or> uint b = 1"
  by (auto simp: sign_bits_def)

lemma b2i_range:
  "\<forall>b \<in> set bs. uint b = 0 \<or> uint b = 1 \<Longrightarrow>
   0 \<le> bit_vector_to_int bs \<and> bit_vector_to_int bs < 2 ^ length bs"
proof (induction bs rule: rev_induct)
  case Nil
  then show ?case by (simp add: b2i_Nil)
next
  case (snoc b bs)
  then have ih: "0 \<le> bit_vector_to_int bs" "bit_vector_to_int bs < 2 ^ length bs"
    by simp_all
  from snoc.prems have "uint b = 0 \<or> uint b = 1" by simp
  with ih show ?case by (auto simp: b2i_snoc)
qed


lemma b2i_sum:
  "bit_vector_to_int bs = (\<Sum>i\<leftarrow>[0..<length bs]. uint (bs ! i) * 2 ^ (length bs - 1 - i))"
proof (induction bs rule: rev_induct)
  case Nil
  then show ?case by (simp add: b2i_Nil)
next
  case (snoc b bs)
  have "2 * (\<Sum>i\<leftarrow>[0..<length bs]. uint (bs ! i) * 2 ^ (length bs - 1 - i))
        = (\<Sum>i\<leftarrow>[0..<length bs]. 2 * (uint (bs ! i) * 2 ^ (length bs - 1 - i)))"
    by (simp add: sum_list_const_mult)
  also have "\<dots> = (\<Sum>i\<leftarrow>[0..<length bs]. uint ((bs @ [b]) ! i) * 2 ^ (length bs - i))"
  proof (rule arg_cong [where f = sum_list], rule map_cong [OF refl])
    fix i assume "i \<in> set [0..<length bs]"
    then have i: "i < length bs" by simp
    then have "length bs - i = Suc (length bs - 1 - i)" by simp
    with i show "2 * (uint (bs ! i) * 2 ^ (length bs - 1 - i))
                 = uint ((bs @ [b]) ! i) * 2 ^ (length bs - i)"
      by (simp add: nth_append)
  qed
  finally show ?case
    using snoc.IH by (simp add: b2i_snoc)
qed

lemma sign_bits_code: "bit_vector_to_int (sign_bits z) = sign_code z"
proof -
  have len: "length (sign_bits z) = length z"
    by (simp add: sign_bits_def)
  have "bit_vector_to_int (sign_bits z)
        = (\<Sum>i\<leftarrow>[0..<length z]. uint (sign_bits z ! i) * 2 ^ (length z - 1 - i))"
    using b2i_sum [of "sign_bits z"] by (simp only: len)
  also have "\<dots> = (\<Sum>i\<leftarrow>[0..<length z]. if z ! i \<ge> 0 then 2 ^ (length z - 1 - i) else 0)"
    by (rule arg_cong [where f = sum_list], rule map_cong [OF refl])
       (simp add: sign_bits_def)
  finally show ?thesis
    by (simp only: sign_code_def)
qed



lemma length_dot_row: "length (dot_row ops R row) = ncols R"
  by (simp add: dot_row_def)


lemma row_length_all:
  "d_elems \<noteq> [] \<Longrightarrow> \<forall>d \<in> set d_elems. length (vector d) = n \<Longrightarrow> row_length d_elems = n"
  by (cases d_elems) (simp_all add: row_length_def)

lemma smallcodes_conforming:
  assumes "d_elems \<noteq> []" "length mean = nrows R"
    and "\<forall>d \<in> set d_elems. length (vector d) = nrows R"
  shows "smallcodes ops R mean d_elems
         = Inr (map (\<lambda>d. (sign_code (dot_row ops R (sub_row ops (nrows R) (vector d) mean)), d))
                  d_elems)"
proof -
  have L: "row_length d_elems = nrows R"
    using assms by (simp add: row_length_all)
  show ?thesis
    using assms L
    by (simp add: smallcodes_def broadcast_dim_def list_all_iff zip_map1 zip_same_conv_map
        sign_bits_code)
qed

lemma smallcodes_snd: "smallcodes ops R mean d_elems = Inr outs \<Longrightarrow> map snd outs = d_elems"
  by (auto simp: smallcodes_def Let_def split: if_splits option.splits)

lemma smallcodes_range:
  assumes "smallcodes ops R mean d_elems = Inr outs" "(c, d) \<in> set outs"
  shows "0 \<le> c \<and> c < 2 ^ ncols R"
proof -
  from assms(1) obtain n where
    "outs = zip (map (\<lambda>d. bit_vector_to_int
                     (sign_bits (dot_row ops R (sub_row ops n (vector d) mean)))) d_elems) d_elems"
    by (auto simp: smallcodes_def Let_def split: if_splits option.splits)
  with assms(2) have
    "c \<in> set (map (\<lambda>d. bit_vector_to_int
                     (sign_bits (dot_row ops R (sub_row ops n (vector d) mean)))) d_elems)"
    by (auto dest: set_zip_leftD)
  then have "\<exists>d'::elem. c = bit_vector_to_int (sign_bits (dot_row ops R (sub_row ops n (vector d') mean)))"
    by (auto simp: image_iff)
  then obtain d' :: elem where
    c: "c = bit_vector_to_int (sign_bits (dot_row ops R (sub_row ops n (vector d') mean)))"
    by (rule exE)
  have "length (sign_bits (dot_row ops R (sub_row ops n (vector d') mean))) = ncols R"
    by (simp add: sign_bits_def dot_row_def)
  with b2i_range [of "sign_bits (dot_row ops R (sub_row ops n (vector d') mean))"] c
  show ?thesis by (auto dest: uint_sign_bit)
qed




lemma length_project: "length (project R mean v) = ncols R"
  by (simp add: project_def)


lemma smallcodes_raises_iff:
  "smallcodes ops R mean d_elems = Inl ValueError \<longleftrightarrow>
   \<not> ((\<forall>d \<in> set d_elems. length (vector d) = row_length d_elems) \<and>
      broadcast_dim (row_length d_elems) (length mean) = Some (nrows R))"
  by (auto simp: smallcodes_def Let_def list_all_iff split: option.splits)

lemma broadcast_dim_iff:
  "broadcast_dim L m = Some n \<longleftrightarrow> (L = m \<or> L = 1 \<or> m = 1) \<and> (if L = 1 then m else L) = n"
  by (auto simp: broadcast_dim_def)

lemmas ex_defs = ex_P_def ex_R_def ex_elem_def ex_np_def

section \<open>Properties of one worker\<close>

lemma packet_elems_append [simp]: "packet_elems (ps @ qs) = packet_elems ps @ packet_elems qs"
  by (induction ps rule: packet_elems.induct) simp_all

lemma packet_elems_map [simp]: "packet_elems (map PElem es) = es"
  by (induction es) simp_all

lemma loop_body_cases:
  obtains (wait) "length d_elems < batch P" "loop_body P d_elems = Get d_elems"
  | (put) outs where "batch P \<le> length d_elems"
      "smallcodes (np P) (rotation P) (m_vec P) d_elems = Inr outs" "loop_body P d_elems = Put outs True"
  | (crash) e where "batch P \<le> length d_elems"
      "smallcodes (np P) (rotation P) (m_vec P) d_elems = Inl e" "loop_body P d_elems = Crashed e"
  by (cases "batch P \<le> length d_elems"; cases "smallcodes (np P) (rotation P) (m_vec P) d_elems")
     (auto simp: loop_body_def)

lemma after_loop_cases:
  obtains (exit) "d_elems = []" "after_loop P d_elems = Exited"
  | (put) outs where "d_elems \<noteq> []"
      "smallcodes (np P) (rotation P) (m_vec P) d_elems = Inr outs" "after_loop P d_elems = Put outs False"
  | (crash) e where "d_elems \<noteq> []"
      "smallcodes (np P) (rotation P) (m_vec P) d_elems = Inl e" "after_loop P d_elems = Crashed e"
  by (cases "smallcodes (np P) (rotation P) (m_vec P) d_elems") (auto simp: after_loop_def)

lemma on_packet_falsy: "\<not> py_bool packet \<Longrightarrow> on_packet P d_elems packet = after_loop P d_elems"
  by (simp add: on_packet_def)

lemma on_packet_truthy:
  "truthy de \<Longrightarrow> on_packet P d_elems (PElem de) = loop_body P (d_elems @ [de])"
  by (simp add: on_packet_def)

lemma py_bool_iff: "py_bool packet \<longleftrightarrow> (\<exists>de. packet = PElem de \<and> truthy de)"
  by (cases packet) simp_all

lemma run_falsy:
  "\<not> py_bool packet \<Longrightarrow>
   run P d_elems (packet # ps) =
     (if d_elems = [] then ([], Exited)
      else case smallcodes (np P) (rotation P) (m_vec P) d_elems of
             Inl e \<Rightarrow> ([], Crashed e)
           | Inr outs \<Rightarrow> (outs, Exited))"
  by (cases rule: after_loop_cases [of d_elems P]) (simp_all add: on_packet_falsy)

lemma run_falsy_as_sentinel:
  "\<not> py_bool packet \<Longrightarrow> run P d_elems (pre @ packet # rest) = run P d_elems (pre @ [PNone])"
proof (induction pre arbitrary: d_elems)
  case Nil
  then show ?case by (simp only: append_Nil run_falsy py_bool.simps not_False_eq_True)
next
  case (Cons p pre)
  then show ?case by (simp split: wstate.splits)
qed

lemma run_elems:
  "run P d_elems packets = (outs, w) \<Longrightarrow>
   (case w of
      Get d' \<Rightarrow> list_all py_bool packets \<and> map snd outs @ d' = d_elems @ packet_elems packets
    | Exited \<Rightarrow> \<not> list_all py_bool packets \<and>
        map snd outs = d_elems @ packet_elems (takeWhile py_bool packets)
    | Crashed e \<Rightarrow> (\<exists>lost. lost \<noteq> [] \<and>
        map snd outs @ lost = d_elems @ packet_elems (takeWhile py_bool packets))
    | _ \<Rightarrow> False)"
proof (induction packets arbitrary: d_elems outs w)
  case Nil
  then show ?case by auto
next
  case (Cons p ps)
  show ?case
  proof (cases "py_bool p")
    case False
    from Cons.prems run_falsy [OF False, of P d_elems ps] have
      "(outs, w) = (if d_elems = [] then ([], Exited)
         else case smallcodes (np P) (rotation P) (m_vec P) d_elems of
                Inl e \<Rightarrow> ([], Crashed e)
              | Inr outs \<Rightarrow> (outs, Exited))"
      by simp
    with False show ?thesis
      by (auto split: if_splits sum.splits dest: smallcodes_snd)
  next
    case True
    then obtain de where p: "p = PElem de" "truthy de"
      by (auto simp: py_bool_iff)
    show ?thesis
    proof (cases rule: loop_body_cases [of "d_elems @ [de]" P])
      case wait
      with Cons.prems p have "run P (d_elems @ [de]) ps = (outs, w)"
        by (simp add: on_packet_truthy)
      from Cons.IH [OF this] p show ?thesis
        by (cases w) simp_all
    next
      case (put os)
      obtain outs' w' where r: "run P [] ps = (outs', w')"
        by (cases "run P [] ps")
      with Cons.prems p put have ow: "outs = os @ outs'" "w = w'"
        by (simp_all add: on_packet_truthy)
      from put have "map snd os = d_elems @ [de]"
        by (simp add: smallcodes_snd)
      with Cons.IH [OF r] p ow show ?thesis
        by (cases w) auto
    next
      case (crash e)
      with Cons.prems p have "outs = []" "w = Crashed e"
        by (simp_all add: on_packet_truthy)
      with p show ?thesis by simp
    qed
  qed
qed

lemma smallcodes_ok:
  assumes "conforming P d_elems" "d_elems \<noteq> []"
  shows "\<exists>outs. smallcodes (np P) (rotation P) (m_vec P) d_elems = Inr outs"
  using assms smallcodes_conforming [of d_elems "m_vec P" "rotation P" "np P"]
  by (simp add: conforming_def list_all_iff)

lemma conforming_append:
  "conforming P (xs @ ys) \<longleftrightarrow> conforming P xs \<and> conforming P ys"
  by (auto simp: conforming_def)

lemma conforming_Nil: "conforming P [] \<longleftrightarrow> wf_matrix (rotation P) \<and> length (m_vec P) = nrows (rotation P)"
  by (simp add: conforming_def)

lemma run_conforming:
  "conforming P (d_elems @ es) \<Longrightarrow> \<exists>outs. run P d_elems (map PElem es @ [PNone]) = (outs, Exited)"
proof (induction es arbitrary: d_elems)
  case Nil
  then show ?case
    using smallcodes_ok [of P d_elems]
    by (cases rule: after_loop_cases [of d_elems P]) (auto simp: on_packet_def)
next
  case (Cons de es)
  then have t: "truthy de" and c: "conforming P ((d_elems @ [de]) @ es)"
    and c': "conforming P ([] @ es)" and cb: "conforming P (d_elems @ [de])"
    by (simp_all add: conforming_def)
  show ?case
  proof (cases rule: loop_body_cases [of "d_elems @ [de]" P])
    case wait
    with Cons.IH [OF c] t show ?thesis
      by (simp add: on_packet_truthy)
  next
    case (put os)
    with Cons.IH [OF c'] t show ?thesis
      by (auto simp: on_packet_truthy)
  next
    case (crash e)
    with smallcodes_ok [OF cb] show ?thesis by simp
  qed
qed

section \<open>Properties of the executions\<close>

lemma sum_list_map_update:
  fixes f :: "'a \<Rightarrow> 'b::comm_monoid_add"
  shows "i < length xs \<Longrightarrow>
         sum_list (map f (xs[i := y])) + f (xs ! i) = sum_list (map f xs) + f y"
proof (induction xs arbitrary: i)
  case Nil
  then show ?case by simp
next
  case (Cons x xs)
  show ?case
  proof (cases i)
    case 0
    then show ?thesis by (simp add: ac_simps)
  next
    case (Suc j)
    with Cons.prems have "j < length xs" by simp
    from Cons.IH [OF this] Suc show ?thesis
      by (simp add: ac_simps)
  qed
qed

lemma step_main_cases:
  assumes "step_main P st = Some st'"
  obtains
    (feed) de rest s where "main st = Feeding (de # rest) s"
      "st' = st\<lparr>main := Feeding rest (s + 1), in_q := in_q st @ [PElem de]\<rparr>"
  | (fed) s where "main st = Feeding [] s" "st' = st\<lparr>main := Sentinels (procs P) s\<rparr>"
  | (sentinel) j s where "main st = Sentinels (Suc j) s"
      "st' = st\<lparr>main := Sentinels j s, in_q := in_q st @ [PNone]\<rparr>"
  | (sent) s where "main st = Sentinels 0 s" "st' = st\<lparr>main := Collecting s []\<rparr>"
  | (collect) k acc x q where "main st = Collecting (Suc k) acc" "out_q st = x # q"
      "st' = st\<lparr>main := Collecting k (acc @ [x]), out_q := q\<rparr>"
  | (cleanup) acc where "main st = Collecting 0 acc"
      "st' = st\<lparr>main := Returned acc, workers := map terminate (workers st)\<rparr>"
  using assms
  by (auto simp: step_main_def split: mstate.splits list.splits nat.splits)

lemma step_worker_cases:
  assumes "step_worker P i st = Some st'"
  obtains
    (get) d_elems packet q where "i < length (workers st)" "workers st ! i = Get d_elems"
      "in_q st = packet # q"
      "st' = st\<lparr>in_q := q, workers := (workers st)[i := on_packet P d_elems packet]\<rparr>"
  | (put) x outs again where "i < length (workers st)" "workers st ! i = Put (x # outs) again"
      "\<not> out_q_full P (out_q st)"
      "st' = st\<lparr>out_q := out_q st @ [x], workers := (workers st)[i := Put outs again]\<rparr>"
  | (put_end) again where "i < length (workers st)" "workers st ! i = Put [] again"
      "st' = st\<lparr>workers := (workers st)[i := (if again then Get [] else Exited)]\<rparr>"
  using assms
  by (auto simp: step_worker_def split: if_splits wstate.splits list.splits)


lemma on_packet_cases:
  obtains (falsy) "\<not> py_bool p" "on_packet P d p = after_loop P d" "packet_elems [p] = [] \<or> (\<exists>de. p = PElem de \<and> \<not> truthy de)"
  | (truthy) de where "p = PElem de" "truthy de" "on_packet P d p = loop_body P (d @ [de])"
  by (cases p) (auto simp: on_packet_def)

lemma loop_body_held: "held (loop_body P d) = (if crashed (loop_body P d) then [] else d)"
  by (cases rule: loop_body_cases [of d P])
     (auto simp: held_def crashed_def dest: smallcodes_snd)

lemma after_loop_held: "held (after_loop P d) = (if crashed (after_loop P d) then [] else d)"
  by (cases rule: after_loop_cases [of d P])
     (auto simp: held_def crashed_def dest: smallcodes_snd)

lemma after_loop_crashed: "crashed (after_loop P d) \<Longrightarrow> 0 < length d"
  by (cases rule: after_loop_cases [of d P]) (auto simp: crashed_def)

lemma held_on_packet:
  "mset (held (on_packet P d p)) \<subseteq># mset d + mset (packet_elems [p])"
  by (cases rule: on_packet_cases [of p P d])
     (auto simp: loop_body_held after_loop_held)

lemma size_on_packet:
  "length (held (on_packet P d p)) + (if crashed (on_packet P d p) then 1 else 0)
   \<le> length d + length (packet_elems [p])"
proof (cases rule: on_packet_cases [of p P d])
  case falsy
  then show ?thesis
    using after_loop_crashed [of P d] by (auto simp: after_loop_held Suc_le_eq)
next
  case (truthy de)
  then show ?thesis
    by (auto simp: loop_body_held)
qed

lemma loop_body_not_killed: "loop_body P d \<noteq> Killed"
  by (cases rule: loop_body_cases [of d P]) auto

lemma after_loop_not_killed: "after_loop P d \<noteq> Killed"
  by (cases rule: after_loop_cases [of d P]) auto

lemma on_packet_not_killed: "on_packet P d p \<noteq> Killed"
  by (cases rule: on_packet_cases [of p P d])
     (simp_all add: loop_body_not_killed after_loop_not_killed)

lemma smallcodes_length: "smallcodes ops R mean d = Inr outs \<Longrightarrow> length outs = length d"
proof -
  assume "smallcodes ops R mean d = Inr outs"
  then have "map snd outs = d" by (rule smallcodes_snd)
  then have "length (map snd outs) = length d" by simp
  then show ?thesis by simp
qed

lemma mu_loop_body: "mu_worker (loop_body P d) \<le> 2 * length d + 2"
  by (cases rule: loop_body_cases [of d P])
     (auto simp: mu_worker_def dest: smallcodes_length)

lemma mu_after_loop: "mu_worker (after_loop P d) \<le> 2 * length d + 2"
  by (cases rule: after_loop_cases [of d P])
     (auto simp: mu_worker_def dest: smallcodes_length)

lemma mu_on_packet: "mu_worker (on_packet P d p) \<le> 2 * length d + 4"
proof (cases rule: on_packet_cases [of p P d])
  case falsy
  with mu_after_loop [of P d] show ?thesis by simp
next
  case (truthy de)
  with mu_loop_body [of P "d @ [de]"] show ?thesis by simp
qed

lemma mset_transfer:
  fixes A :: "'a multiset"
  assumes "A' + X = A + Y" "Y \<subseteq># X"
  shows "A' \<subseteq># A"
proof -
  from assms(2) obtain Z where "X = Y + Z"
    by (auto simp: mset_subset_eq_exists_conv)
  with assms(1) have "A' + Z + Y = A + Y"
    by (simp add: ac_simps)
  then have eq: "A = A' + Z" by simp
  show ?thesis unfolding eq by (rule mset_subset_eq_add_left)
qed

lemma held_all_update:
  "i < length ws \<Longrightarrow> held_all (ws[i := w]) + mset (held (ws ! i)) = held_all ws + mset (held w)"
  unfolding held_all_def by (rule sum_list_map_update)

lemma crashed_count_update:
  "i < length ws \<Longrightarrow>
   crashed_count (ws[i := w]) + (if crashed (ws ! i) then 1 else 0)
   = crashed_count ws + (if crashed w then 1 else 0)"
  unfolding crashed_count_def by (rule sum_list_map_update)

lemma finishing_count_update:
  "i < length ws \<Longrightarrow>
   finishing_count (ws[i := w]) + (if finishing (ws ! i) then 1 else 0)
   = finishing_count ws + (if finishing w then 1 else 0)"
  unfolding finishing_count_def by (rule sum_list_map_update)

lemma mu_workers_update:
  "i < length ws \<Longrightarrow>
   (\<Sum>w\<leftarrow>ws[i := w']. mu_worker w) + mu_worker (ws ! i) = (\<Sum>w\<leftarrow>ws. mu_worker w) + mu_worker w'"
  by (rule sum_list_map_update)

lemma held_terminate: "mset (held (terminate w)) \<subseteq># mset (held w)"
  by (cases w) (simp_all add: terminate_def held_def)

lemma held_all_terminate: "held_all (map terminate ws) \<subseteq># held_all ws"
  by (induction ws) (simp_all add: held_all_def held_terminate subset_mset.add_mono)

lemma crashed_terminate [simp]: "crashed (terminate w) = crashed w"
  by (cases w) (simp_all add: terminate_def crashed_def)

lemma crashed_count_terminate [simp]: "crashed_count (map terminate ws) = crashed_count ws"
  by (induction ws) (simp_all add: crashed_count_def)

lemma not_alive_terminate [simp]: "\<not> alive (terminate w)"
  by (cases w) (simp_all add: terminate_def alive_def)

lemma mu_terminate: "mu_worker (terminate w) \<le> mu_worker w"
  by (cases w) (simp_all add: terminate_def mu_worker_def)

lemma mu_workers_terminate:
  "(\<Sum>w\<leftarrow>map terminate ws. mu_worker w) \<le> (\<Sum>w\<leftarrow>ws. mu_worker w)"
  by (induction ws) (simp_all add: mu_terminate add_mono)

lemma held_all_replicate [simp]: "held_all (replicate n (Get [])) = {#}"
  by (induction n) (simp_all add: held_all_def held_def)

lemma crashed_count_replicate [simp]: "crashed_count (replicate n (Get [])) = 0"
  by (induction n) (simp_all add: crashed_count_def crashed_def)

lemma ginv_init: "ginv P es (init P es)"
  by (simp add: ginv_def init_def in_transit_def unsent_def collected_def counters_ok_def
      main_puts_def returned_def)

lemma ginv_step_main:
  assumes "ginv P es st" "step_main P st = Some st'"
  shows "ginv P es st'"
  using assms(2)
proof (cases rule: step_main_cases)
  case (feed de rest s)
  with assms(1) show ?thesis
    by (simp add: ginv_def in_transit_def unsent_def collected_def counters_ok_def
        main_puts_def returned_def)
next
  case (fed s)
  with assms(1) show ?thesis
    by (simp add: ginv_def in_transit_def unsent_def collected_def counters_ok_def
        main_puts_def returned_def)
next
  case (sentinel j s)
  with assms(1) show ?thesis
    by (simp add: ginv_def in_transit_def unsent_def collected_def counters_ok_def
        main_puts_def returned_def replicate_app_Cons_same)
next
  case (sent s)
  with assms(1) show ?thesis
    by (simp add: ginv_def in_transit_def unsent_def collected_def counters_ok_def
        main_puts_def returned_def)
next
  case (collect k acc x q)
  with assms(1) show ?thesis
    by (simp add: ginv_def in_transit_def unsent_def collected_def counters_ok_def
        main_puts_def returned_def)
next
  case (cleanup acc)
  have sub: "in_transit st' \<subseteq># in_transit st"
    using cleanup held_all_terminate [of "workers st"]
    by (simp add: in_transit_def unsent_def collected_def)
  then have "size (in_transit st') \<le> size (in_transit st)"
    by (rule size_mset_mono)
  with sub assms(1) cleanup show ?thesis
    by (auto simp: ginv_def counters_ok_def main_puts_def returned_def list_all_iff
        intro: subset_mset.order_trans)
qed

lemma ginv_alive_not_returned:
  assumes "ginv P es st" "i < length (workers st)" "alive (workers st ! i)"
  shows "\<not> returned (main st)"
proof
  assume "returned (main st)"
  with assms(1) have "\<forall>w \<in> set (workers st). \<not> alive w"
    by (simp add: ginv_def list_all_iff)
  with assms(2,3) show False
    using nth_mem by blast
qed

lemma ginv_step_worker:
  assumes "ginv P es st" "step_worker P i st = Some st'"
  shows "ginv P es st'"
  using assms(2)
proof (cases rule: step_worker_cases)
  case (get d packet q)
  let ?w = "on_packet P d packet"
  have nr: "\<not> returned (main st)"
    using ginv_alive_not_returned [OF assms(1) get(1)] get(2) by (simp add: alive_def)
  have h: "held (workers st ! i) = d" "\<not> crashed (workers st ! i)"
    using get(2) by (simp_all add: held_def crashed_def)
  have ha: "held_all (workers st') + mset d = held_all (workers st) + mset (held ?w)"
    using held_all_update [OF get(1), of ?w] h get(4) by simp
  have cc: "crashed_count (workers st') = crashed_count (workers st) + (if crashed ?w then 1 else 0)"
    using crashed_count_update [OF get(1), of ?w] h get(4) by simp
  have pe: "packet_elems (in_q st) = packet_elems [packet] @ packet_elems (in_q st')"
    using get(3,4) by (cases packet) simp_all
  have tr: "in_transit st' + (mset d + mset (packet_elems [packet]))
            = in_transit st + mset (held ?w)"
    using ha pe get(4) by (simp add: in_transit_def ac_simps)
  have sub: "in_transit st' \<subseteq># in_transit st"
    using tr held_on_packet by (rule mset_transfer)
  have "size (in_transit st') + (length d + length (packet_elems [packet]))
        = size (in_transit st) + length (held ?w)"
    using arg_cong [OF tr, of size] by simp
  with size_on_packet [of P d packet] cc
  have sz: "size (in_transit st') + crashed_count (workers st')
            \<le> size (in_transit st) + crashed_count (workers st)"
    by (simp split: if_splits)
  have k: "Killed \<notin> set (workers st')"
    using assms(1) nr get(4) on_packet_not_killed [of P d packet]
    by (auto simp: ginv_def dest!: set_update_subset_insert [THEN subsetD])
  from assms(1) obtain consumed where
    "consumed @ in_q st @ main_puts P (main st) = map PElem es @ replicate (procs P) PNone"
    by (auto simp: ginv_def)
  with get(3,4) have "(consumed @ [packet]) @ in_q st' @ main_puts P (main st')
                    = map PElem es @ replicate (procs P) PNone"
    by simp
  then have c: "\<exists>consumed. consumed @ in_q st' @ main_puts P (main st')
                = map PElem es @ replicate (procs P) PNone" ..
  from assms(1) sub sz k c nr get(4) show ?thesis
    by (auto simp: ginv_def intro: subset_mset.order_trans)
next
  case (put x outs again)
  have h: "held (workers st ! i) = snd x # map snd outs" "\<not> crashed (workers st ! i)"
    using put(2) by (simp_all add: held_def crashed_def)
  have nr: "\<not> returned (main st)"
    using ginv_alive_not_returned [OF assms(1) put(1)] put(2) by (simp add: alive_def)
  have ha: "held_all (workers st') + mset (snd x # map snd outs)
            = held_all (workers st) + mset (map snd outs)"
    using held_all_update [OF put(1), of "Put outs again"] h put(4) by (simp add: held_def)
  have cc: "crashed_count (workers st') = crashed_count (workers st)"
    using crashed_count_update [OF put(1), of "Put outs again"] h put(4)
    by (simp add: crashed_def)
  have tr: "in_transit st' = in_transit st"
    using ha put(4) by (simp add: in_transit_def ac_simps)
  have len: "length (out_q st') \<le> 2 * procs P"
    using assms(1) put(1,3,4) by (auto simp: ginv_def out_q_full_def)
  have k: "Killed \<notin> set (workers st')"
    using assms(1) nr put(4)
    by (auto simp: ginv_def dest!: set_update_subset_insert [THEN subsetD])
  from assms(1) tr cc len k nr put(4) show ?thesis
    by (auto simp: ginv_def)
next
  case (put_end again)
  let ?w = "if again then Get [] else Exited"
  have h: "held (workers st ! i) = []" "\<not> crashed (workers st ! i)" "held ?w = []" "\<not> crashed ?w"
    using put_end(2) by (simp_all add: held_def crashed_def)
  have nr: "\<not> returned (main st)"
    using ginv_alive_not_returned [OF assms(1) put_end(1)] put_end(2) by (simp add: alive_def)
  have ha: "held_all (workers st') = held_all (workers st)"
    using held_all_update [OF put_end(1), of ?w] h put_end(3) by simp
  have cc: "crashed_count (workers st') = crashed_count (workers st)"
    using crashed_count_update [OF put_end(1), of ?w] h put_end(3) by simp
  have tr: "in_transit st' = in_transit st"
    using ha put_end(3) by (simp add: in_transit_def)
  have k: "Killed \<notin> set (workers st')"
    using assms(1) nr put_end(3)
    by (auto simp: ginv_def dest!: set_update_subset_insert [THEN subsetD])
  from assms(1) tr cc k nr put_end(3) show ?thesis
    by (auto simp: ginv_def)
qed

lemma ginv_step: "ginv P es st \<Longrightarrow> step P p st = Some st' \<Longrightarrow> ginv P es st'"
  by (cases p) (auto intro: ginv_step_main ginv_step_worker)

lemma ginv_exec_from: "ginv P es st \<Longrightarrow> exec P sched st = Some st' \<Longrightarrow> ginv P es st'"
proof (induction sched arbitrary: st)
  case Nil
  then show ?case by simp
next
  case (Cons p sched)
  then show ?case
    by (auto split: option.splits dest: ginv_step)
qed

lemma ginv_exec: "exec P sched (init P es) = Some st \<Longrightarrow> ginv P es st"
  using ginv_exec_from [OF ginv_init] .

lemma exec_append:
  "exec P (xs @ ys) st = (case exec P xs st of None \<Rightarrow> None | Some st' \<Rightarrow> exec P ys st')"
  by (induction xs arbitrary: st) (auto split: option.splits)

lemma mu_worker_simps:
  "mu_worker (Get d) = 2 * length d + 1"
  "mu_worker (Put outs again) = 2 * length outs + 2"
  "mu_worker Exited = 0" "mu_worker (Crashed e) = 0" "mu_worker Killed = 0"
  by (simp_all add: mu_worker_def)

lemma mu_step_main:
  assumes "step_main P st = Some st'"
  shows "mu P st' < mu P st"
  using assms
proof (cases rule: step_main_cases)
  case (cleanup acc)
  with mu_workers_terminate [of "workers st"] show ?thesis
    by (simp add: mu_def mu_main_def)
qed (simp_all add: mu_def mu_main_def)

lemma mu_step_worker:
  assumes "step_worker P i st = Some st'"
  shows "mu P st' < mu P st"
  using assms
proof (cases rule: step_worker_cases)
  case (get d packet q)
  from mu_workers_update [OF get(1), of "on_packet P d packet"] get(2,4)
  have "(\<Sum>w\<leftarrow>workers st'. mu_worker w) + (2 * length d + 1)
        = (\<Sum>w\<leftarrow>workers st. mu_worker w) + mu_worker (on_packet P d packet)"
    by (simp add: mu_worker_simps)
  with mu_on_packet [of P d packet] get(3,4) show ?thesis
    by (simp add: mu_def)
next
  case (put x outs again)
  from mu_workers_update [OF put(1), of "Put outs again"] put(2,4)
  have "(\<Sum>w\<leftarrow>workers st'. mu_worker w) + 2 = (\<Sum>w\<leftarrow>workers st. mu_worker w)"
    by (simp add: mu_worker_simps)
  with put(4) show ?thesis
    by (simp add: mu_def)
next
  case (put_end again)
  from mu_workers_update [OF put_end(1), of "if again then Get [] else Exited"] put_end(2,3)
  have "(\<Sum>w\<leftarrow>workers st'. mu_worker w) < (\<Sum>w\<leftarrow>workers st. mu_worker w)"
    by (simp add: mu_worker_simps split: if_splits)
  with put_end(3) show ?thesis
    by (simp add: mu_def)
qed

lemma mu_step: "step P p st = Some st' \<Longrightarrow> mu P st' < mu P st"
  by (cases p) (auto intro: mu_step_main mu_step_worker)

lemma mu_exec: "exec P sched st = Some st' \<Longrightarrow> length sched + mu P st' \<le> mu P st"
proof (induction sched arbitrary: st)
  case Nil
  then show ?case by simp
next
  case (Cons p sched)
  then obtain st1 where s: "step P p st = Some st1" and e: "exec P sched st1 = Some st'"
    by (auto split: option.splits)
  from Cons.IH [OF e] mu_step [OF s] show ?case by simp
qed

lemma mu_init: "mu P (init P es) = 6 * length es + 6 * procs P + 3"
  by (simp add: mu_def init_def mu_main_def sum_list_replicate mu_worker_simps)

lemma exec_bounded:
  "exec P sched (init P es) = Some st \<Longrightarrow> length sched \<le> 6 * length es + 6 * procs P + 3"
  using mu_exec [of P sched "init P es" st] by (simp add: mu_init)

lemma enabled_iff: "enabled P st \<longleftrightarrow> (\<exists>p. step P p st \<noteq> None)"
proof
  assume "enabled P st"
  then consider "step P Main st \<noteq> None" | i where "step P (Worker i) st \<noteq> None"
    by (auto simp: enabled_def list_ex_iff)
  then show "\<exists>p. step P p st \<noteq> None" by cases blast+
next
  assume "\<exists>p. step P p st \<noteq> None"
  then obtain p where p: "step P p st \<noteq> None" ..
  show "enabled P st"
  proof (cases p)
    case Main
    with p show ?thesis by (simp add: enabled_def)
  next
    case (Worker i)
    with p have "step_worker P i st \<noteq> None" by simp
    moreover from this have "i < length (workers st)"
      by (auto simp: step_worker_def split: if_splits)
    ultimately show ?thesis by (auto simp: enabled_def list_ex_iff)
  qed
qed

lemma crashed_count_pos:
  "i < length ws \<Longrightarrow> crashed (ws ! i) \<Longrightarrow> 0 < crashed_count ws"
proof (induction ws arbitrary: i)
  case Nil
  then show ?case by simp
next
  case (Cons w ws)
  then show ?case
    by (cases i) (auto simp: crashed_count_def)
qed

lemma returned_all:
  assumes "ginv P es st" "main st = Returned acc"
  shows "length acc = length es" "mset (map snd acc) = mset es" "crashed_count (workers st) = 0"
proof -
  from assms have len: "length acc = length es"
    by (simp add: ginv_def counters_ok_def)
  from assms have sub: "in_transit st \<subseteq># mset es"
    and sz: "size (in_transit st) + crashed_count (workers st) \<le> length es"
    by (simp_all add: ginv_def)
  have acc: "mset (map snd acc) \<subseteq># in_transit st"
    using assms(2) by (simp add: in_transit_def collected_def)
  then have "size (mset (map snd acc)) \<le> size (in_transit st)"
    by (rule size_mset_mono)
  with len sz have eqs: "size (in_transit st) = length es" and cc: "crashed_count (workers st) = 0"
    by simp_all
  from acc sub have "mset (map snd acc) \<subseteq># mset es"
    by (rule subset_mset.order_trans)
  moreover have "size (mset (map snd acc)) = size (mset es)"
    using len by simp
  ultimately have "mset (map snd acc) = mset es"
  proof -
    assume le: "mset (map snd acc) \<subseteq># mset es"
      and sz: "size (mset (map snd acc)) = size (mset es)"
    show ?thesis
    proof (rule ccontr)
      assume "mset (map snd acc) \<noteq> mset es"
      with le have "mset (map snd acc) \<subset># mset es"
        by (rule subset_mset.le_neq_trans)
      then have "size (mset (map snd acc)) < size (mset es)"
        by (rule mset_subset_size)
      with sz show False by simp
    qed
  qed
  with len cc show "length acc = length es" "mset (map snd acc) = mset es"
    "crashed_count (workers st) = 0" by simp_all
qed

lemma held_sub: "i < length ws \<Longrightarrow> mset (held (ws ! i)) \<subseteq># held_all ws"
proof (induction ws arbitrary: i)
  case Nil
  then show ?case by simp
next
  case (Cons w ws)
  show ?case
  proof (cases i)
    case 0
    then show ?thesis by (simp add: held_all_def)
  next
    case (Suc j)
    with Cons.prems have "j < length ws" by simp
    from Cons.IH [OF this] have "mset (held (ws ! j)) \<subseteq># held_all ws" .
    also have "held_all ws \<subseteq># held_all (w # ws)"
      by (simp add: held_all_def)
    finally show ?thesis using Suc by simp
  qed
qed

lemma conforming_subset: "conforming P es \<Longrightarrow> set ds \<subseteq> set es \<Longrightarrow> conforming P ds"
  by (auto simp: conforming_def list_all_iff)

lemma ginv_held_conforming:
  assumes "ginv P es st" "conforming P es" "i < length (workers st)"
  shows "conforming P (held (workers st ! i))"
proof -
  have "in_transit st = held_all (workers st)
          + (mset (unsent (main st)) + mset (packet_elems (in_q st))
             + mset (map snd (out_q st)) + mset (map snd (collected (main st))))"
    by (simp add: in_transit_def ac_simps)
  then have "held_all (workers st) \<subseteq># in_transit st"
    by (simp only: mset_subset_eq_add_left)
  with held_sub [OF assms(3)] have "mset (held (workers st ! i)) \<subseteq># in_transit st"
    by (rule subset_mset.order_trans)
  also have "\<dots> \<subseteq># mset es"
    using assms(1) by (simp add: ginv_def)
  finally have "set (held (workers st ! i)) \<subseteq> set es"
    using set_mset_mono by fastforce
  with assms(2) show ?thesis by (rule conforming_subset)
qed

lemma ginv_in_q_conforming:
  assumes "ginv P es st" "conforming P es"
  shows "conforming P (packet_elems (in_q st))"
proof -
  have "mset (packet_elems (in_q st)) \<subseteq># in_transit st"
    by (simp add: in_transit_def) 
  also have "\<dots> \<subseteq># mset es"
    using assms(1) by (simp add: ginv_def)
  finally have "set (packet_elems (in_q st)) \<subseteq> set es"
    using set_mset_mono by fastforce
  with assms(2) show ?thesis by (rule conforming_subset)
qed

lemma sentinels_in_simps [simp]:
  "sentinels_in [] = 0"
  "sentinels_in (PNone # q) = Suc (sentinels_in q)"
  "sentinels_in (PElem de # q) = sentinels_in q"
  "sentinels_in (q @ q') = sentinels_in q + sentinels_in q'"
  by (simp_all add: sentinels_in_def)

lemma packet_elems_replicate [simp]: "packet_elems (replicate n PNone) = []"
  by (induction n) simp_all

lemma sentinels_in_map [simp]: "sentinels_in (map PElem xs) = 0"
  by (induction xs) simp_all

lemma sentinels_in_replicate [simp]: "sentinels_in (replicate n PNone) = n"
  by (induction n) simp_all

lemma sentinels_last_iff: "sentinels_last q \<longleftrightarrow> (\<exists>xs n. q = map PElem xs @ replicate n PNone)"
proof
  assume "sentinels_last q"
  then have "q = map PElem (packet_elems q) @ replicate (sentinels_in q) PNone"
    by (simp only: sentinels_last_def)
  then show "\<exists>xs n. q = map PElem xs @ replicate n PNone" by blast
next
  assume "\<exists>xs n. q = map PElem xs @ replicate n PNone"
  then obtain xs n where "q = map PElem xs @ replicate n PNone" by blast
  then show "sentinels_last q" by (simp add: sentinels_last_def)
qed

lemma sentinels_last_Nil [simp]: "sentinels_last []"
  by (simp add: sentinels_last_def)

lemma sentinels_last_snoc_None: "sentinels_last q \<Longrightarrow> sentinels_last (q @ [PNone])"
proof -
  assume "sentinels_last q"
  then obtain xs n where "q = map PElem xs @ replicate n PNone"
    by (auto simp: sentinels_last_iff)
  then have "q @ [PNone] = map PElem xs @ replicate (Suc n) PNone"
    by (simp add: replicate_append_same)
  then show ?thesis unfolding sentinels_last_iff by blast
qed

lemma sentinels_last_snoc_Elem:
  assumes "sentinels_last q" "sentinels_in q = 0"
  shows "sentinels_last (q @ [PElem de])"
proof -
  from assms(1) obtain xs n where q: "q = map PElem xs @ replicate n PNone"
    by (auto simp: sentinels_last_iff)
  with assms(2) have "n = 0" by simp
  with q have "q @ [PElem de] = map PElem (xs @ [de]) @ replicate 0 PNone" by simp
  then show ?thesis unfolding sentinels_last_iff by blast
qed

lemma sentinels_last_tl:
  assumes "sentinels_last (p # q)"
  shows "sentinels_last q"
proof -
  from assms obtain xs n where q: "p # q = map PElem xs @ replicate n PNone"
    by (auto simp: sentinels_last_iff)
  show ?thesis
  proof (cases xs)
    case Nil
    with q obtain m where "q = map PElem [] @ replicate m PNone"
      by (cases n) auto
    then show ?thesis unfolding sentinels_last_iff by blast
  next
    case (Cons x xs')
    with q have "q = map PElem xs' @ replicate n PNone" by simp
    then show ?thesis unfolding sentinels_last_iff by blast
  qed
qed

lemma sentinels_last_None:
  assumes "sentinels_last (PNone # q)"
  shows "packet_elems q = []"
proof -
  from assms obtain xs n where q: "PNone # q = map PElem xs @ replicate n PNone"
    by (auto simp: sentinels_last_iff)
  then have "xs = []" by (cases xs) auto
  with q show ?thesis by (cases n) auto
qed

lemma finishing_simps [simp]:
  "finishing (Get d) = False" "finishing (Put outs again) = (\<not> again)"
  "finishing Exited = True" "finishing (Crashed e) = False" "finishing Killed = False"
  by (simp_all add: finishing_def)

lemma alive_simps [simp]:
  "alive (Get d) = True" "alive (Put outs again) = True"
  "alive Exited = False" "alive (Crashed e) = False" "alive Killed = False"
  by (simp_all add: alive_def)

lemma held_simps [simp]:
  "held (Get d) = d" "held (Put outs again) = map snd outs"
  "held Exited = []" "held (Crashed e) = []" "held Killed = []"
  by (simp_all add: held_def)

lemma finishing_count_replicate [simp]: "finishing_count (replicate n (Get [])) = 0"
  by (induction n) (simp_all add: finishing_count_def)

lemma cinv_init: "cinv P es (init P es)"
  by (simp add: cinv_def init_def in_transit_def unsent_def collected_def to_send_def
      list_all_iff)

lemma cinv_step_main:
  assumes "cinv P es st" "step_main P st = Some st'"
  shows "cinv P es st'"
  using assms(2)
proof (cases rule: step_main_cases)
  case (feed de rest s)
  with assms(1) have "sentinels_in (in_q st) = 0" "finishing_count (workers st) = 0"
    by (simp_all add: cinv_def returned_def to_send_def)
  with assms(1) feed show ?thesis
    by (simp add: cinv_def returned_def to_send_def in_transit_def unsent_def collected_def
        sentinels_last_snoc_Elem)
next
  case (fed s)
  with assms(1) show ?thesis
    by (simp add: cinv_def returned_def to_send_def in_transit_def unsent_def collected_def)
next
  case (sentinel j s)
  with assms(1) show ?thesis
    by (simp add: cinv_def returned_def to_send_def in_transit_def unsent_def collected_def
        sentinels_last_snoc_None)
next
  case (sent s)
  with assms(1) show ?thesis
    by (simp add: cinv_def returned_def to_send_def in_transit_def unsent_def collected_def)
next
  case (collect k acc x q)
  with assms(1) show ?thesis
    by (simp add: cinv_def returned_def to_send_def in_transit_def unsent_def collected_def)
next
  case (cleanup acc)
  then show ?thesis
    by (simp add: cinv_def returned_def)
qed

lemma list_all_update:
  "list_all Q ws \<Longrightarrow> Q w \<Longrightarrow> list_all Q (ws[i := w])"
  by (auto simp: list_all_iff dest!: set_update_subset_insert [THEN subsetD])

lemma cinv_step_worker:
  assumes "conforming P es" "ginv P es st" "cinv P es st" "step_worker P i st = Some st'"
  shows "cinv P es st'"
  using assms(4)
proof (cases rule: step_worker_cases)
  case (get d packet q)
  let ?w = "on_packet P d packet"
  have nr: "\<not> returned (main st)"
    using ginv_alive_not_returned [OF assms(2) get(1)] get(2) by simp
  with assms(3) have
    tr: "in_transit st = mset es" and
    al: "list_all (\<lambda>w. alive w \<or> w = Exited) (workers st)" and
    cnt: "sentinels_in (in_q st) + finishing_count (workers st) + to_send P (main st) = procs P" and
    shape: "sentinels_last (in_q st)" and
    fin: "0 < finishing_count (workers st) \<longrightarrow> packet_elems (in_q st) = []"
    by (simp_all add: cinv_def)
  have cd: "conforming P d"
    using ginv_held_conforming [OF assms(2,1) get(1)] get(2) by simp
  have cq: "conforming P (packet_elems (in_q st))"
    using ginv_in_q_conforming [OF assms(2,1)] .
  have ha: "held_all (workers st') + mset d = held_all (workers st) + mset (held ?w)"
    using held_all_update [OF get(1), of ?w] get(2,4) by simp
  have fc: "finishing_count (workers st') = finishing_count (workers st) + (if finishing ?w then 1 else 0)"
    using finishing_count_update [OF get(1), of ?w] get(2,4) by simp
  show ?thesis
  proof (cases packet)
    case PNone
    from shape get(3) PNone have peq: "packet_elems q = []"
      by (simp add: sentinels_last_None)
    with get(3) PNone have pe: "packet_elems (in_q st) = []"
      by simp
    from shape get(3) have q: "sentinels_last q"
      by (simp add: sentinels_last_tl)
    have ow: "?w = after_loop P d"
      using PNone by (simp add: on_packet_def)
    have w: "held ?w = d \<and> finishing ?w \<and> (alive ?w \<or> ?w = Exited)"
      unfolding ow using smallcodes_ok [OF cd]
      by (cases rule: after_loop_cases [of d P]) (auto dest: smallcodes_snd)
    from w ha have ha': "held_all (workers st') = held_all (workers st)" by simp
    have tr': "in_transit st' = mset es"
      using tr ha' get(3,4) PNone by (simp add: in_transit_def)
    have al': "list_all (\<lambda>w. alive w \<or> w = Exited) (workers st')"
      using al w get(4) by (simp add: list_all_update)
    have cnt': "sentinels_in (in_q st') + finishing_count (workers st') + to_send P (main st') = procs P"
      using cnt fc w get(3,4) PNone by simp
    have shape': "sentinels_last (in_q st')"
      using q get(4) by simp
    have "packet_elems (in_q st') = []"
      using pe get(3,4) PNone by simp
    with tr' al' cnt' shape' show ?thesis
      by (simp add: cinv_def)
  next
    case (PElem de)
    with get(3) have pe: "packet_elems (in_q st) = de # packet_elems q"
      by simp
    with cq have t: "truthy de" and cde: "conforming P (d @ [de])"
      using cd by (simp_all add: conforming_def)
    from pe fin have f0: "finishing_count (workers st) = 0" by auto
    have ow: "?w = loop_body P (d @ [de])"
      using PElem t by (simp add: on_packet_def)
    have w: "held ?w = d @ [de] \<and> \<not> finishing ?w \<and> alive ?w"
      unfolding ow using smallcodes_ok [OF cde]
      by (cases rule: loop_body_cases [of "d @ [de]" P]) (auto dest: smallcodes_snd)
    from w ha have ha': "held_all (workers st') + mset d = held_all (workers st) + mset (d @ [de])"
      by simp
    have tr': "in_transit st' = mset es"
      using tr ha' pe get(4) by (simp add: in_transit_def ac_simps)
    have al': "list_all (\<lambda>w. alive w \<or> w = Exited) (workers st')"
      using al w get(4) by (simp add: list_all_update)
    have cnt': "sentinels_in (in_q st') + finishing_count (workers st') + to_send P (main st') = procs P"
      using cnt fc w get(3,4) PElem by simp
    have shape': "sentinels_last (in_q st')"
      using shape get(3,4) by (simp add: sentinels_last_tl)
    have "finishing_count (workers st') = 0"
      using fc f0 w by simp
    with tr' al' cnt' shape' show ?thesis
      by (simp add: cinv_def)
  qed
next
  case (put x outs again)
  have nr: "\<not> returned (main st)"
    using ginv_alive_not_returned [OF assms(2) put(1)] put(2) by simp
  have ha: "held_all (workers st') + mset (snd x # map snd outs)
            = held_all (workers st) + mset (map snd outs)"
    using held_all_update [OF put(1), of "Put outs again"] put(2,4) by simp
  have fc: "finishing_count (workers st') = finishing_count (workers st)"
    using finishing_count_update [OF put(1), of "Put outs again"] put(2,4) by simp
  have tr: "in_transit st' = in_transit st"
    using ha put(4) by (simp add: in_transit_def ac_simps)
  from assms(3) nr tr fc put(4) show ?thesis
    by (simp add: cinv_def list_all_update)
next
  case (put_end again)
  let ?w = "if again then Get [] else Exited"
  have nr: "\<not> returned (main st)"
    using ginv_alive_not_returned [OF assms(2) put_end(1)] put_end(2) by simp
  have ha: "held_all (workers st') = held_all (workers st)"
    using held_all_update [OF put_end(1), of ?w] put_end(2,3) by simp
  have fc: "finishing_count (workers st') = finishing_count (workers st)"
    using finishing_count_update [OF put_end(1), of ?w] put_end(2,3) by (cases again) simp_all
  have tr: "in_transit st' = in_transit st"
    using ha put_end(3) by (simp add: in_transit_def)
  from assms(3) nr tr fc put_end(3) show ?thesis
    by (simp add: cinv_def list_all_update)
qed

lemma finishing_count_le: "finishing_count ws \<le> length ws"
  by (induction ws) (simp_all add: finishing_count_def)

lemma finishing_count_lt:
  "i < length ws \<Longrightarrow> \<not> finishing (ws ! i) \<Longrightarrow> finishing_count ws < length ws"
proof (induction ws arbitrary: i)
  case Nil
  then show ?case by simp
next
  case (Cons w ws)
  show ?case
  proof (cases i)
    case 0
    with Cons.prems finishing_count_le [of ws] show ?thesis
      by (simp add: finishing_count_def)
  next
    case (Suc j)
    with Cons.prems have "finishing_count ws < length ws"
      by (intro Cons.IH [of j]) simp_all
    then show ?thesis by (simp add: finishing_count_def)
  qed
qed

lemma all_exited:
  "\<forall>w \<in> set ws. w = Exited \<Longrightarrow> held_all ws = {#} \<and> finishing_count ws = length ws"
  by (induction ws) (simp_all add: held_all_def finishing_count_def)

lemma enabledI_worker:
  "i < length (workers st) \<Longrightarrow> step_worker P i st \<noteq> None \<Longrightarrow> enabled P st"
  by (auto simp: enabled_def list_ex_iff)

lemma progress:
  assumes "conforming P es" and "0 < procs P \<or> es = []"
    and "ginv P es st" and "cinv P es st" and "\<not> returned (main st)"
  shows "enabled P st"
proof (cases "step_main P st")
  case (Some st')
  then show ?thesis by (simp add: enabled_def)
next
  case None
  then obtain k acc where m: "main st = Collecting (Suc k) acc" and oq: "out_q st = []"
    using assms(5)
    by (auto simp: step_main_def returned_def split: mstate.splits list.splits nat.splits)
  from assms(4,5) have
    tr: "in_transit st = mset es" and
    al: "list_all (\<lambda>w. alive w \<or> w = Exited) (workers st)" and
    cnt: "sentinels_in (in_q st) + finishing_count (workers st) + to_send P (main st) = procs P" and
    fin: "0 < finishing_count (workers st) \<longrightarrow> packet_elems (in_q st) = []"
    by (simp_all add: cinv_def)
  from assms(3) have len: "length (workers st) = procs P"
    and cok: "counters_ok (length es) (main st)"
    by (simp_all add: ginv_def)
  from cok m have n: "Suc k + length acc = length es"
    by (simp add: counters_ok_def)
  have "(\<exists>i outs again. i < length (workers st) \<and> workers st ! i = Put outs again)
        \<or> (\<exists>i d. i < length (workers st) \<and> workers st ! i = Get d)
        \<or> (\<forall>w \<in> set (workers st). w = Exited)"
  proof (rule ccontr)
    assume a: "\<not> ?thesis"
    then obtain w where w: "w \<in> set (workers st)" "w \<noteq> Exited" by blast
    then obtain i where i: "i < length (workers st)" "workers st ! i = w"
      by (auto simp: in_set_conv_nth)
    from w al have "alive w" by (auto simp: list_all_iff)
    then have "(\<exists>outs again. w = Put outs again) \<or> (\<exists>d. w = Get d)"
      by (cases w) simp_all
    with a i show False by blast
  qed
  then consider (put) i outs again where "i < length (workers st)" "workers st ! i = Put outs again"
    | (get) i d where "i < length (workers st)" "workers st ! i = Get d"
    | (none) "\<forall>w \<in> set (workers st). w = Exited"
    by blast
  then show ?thesis
  proof cases
    case (put i outs again)
    have "\<not> out_q_full P (out_q st)"
      using oq by (auto simp: out_q_full_def)
    with put have "step_worker P i st \<noteq> None"
      by (cases outs) (simp_all add: step_worker_def)
    with put(1) show ?thesis by (rule enabledI_worker)
  next
    case (get i d)
    then have "finishing_count (workers st) < length (workers st)"
      by (intro finishing_count_lt [of i]) simp_all
    with cnt len m have "0 < sentinels_in (in_q st)"
      by (simp add: to_send_def)
    then have "in_q st \<noteq> []" by auto
    with get have "step_worker P i st \<noteq> None"
      by (cases "in_q st") (simp_all add: step_worker_def)
    with get(1) show ?thesis by (rule enabledI_worker)
  next
    case none
    then have h: "held_all (workers st) = {#}"
      and f: "finishing_count (workers st) = length (workers st)"
      using all_exited [of "workers st"] by simp_all
    from tr h oq m have "mset (packet_elems (in_q st)) + mset (map snd acc) = mset es"
      by (simp add: in_transit_def unsent_def collected_def)
    from arg_cong [OF this, of size]
    have "length (packet_elems (in_q st)) + length acc = length es"
      by simp
    with n have ne: "packet_elems (in_q st) \<noteq> []" by auto
    with fin f len have "procs P = 0" by simp
    with assms(2) n show ?thesis by simp
  qed
qed

lemma cinv_step:
  "conforming P es \<Longrightarrow> ginv P es st \<Longrightarrow> cinv P es st \<Longrightarrow> step P p st = Some st' \<Longrightarrow> cinv P es st'"
  by (cases p) (auto intro: cinv_step_main cinv_step_worker)

lemma cinv_exec_from:
  "conforming P es \<Longrightarrow> ginv P es st \<Longrightarrow> cinv P es st \<Longrightarrow> exec P sched st = Some st'
   \<Longrightarrow> cinv P es st'"
proof (induction sched arbitrary: st)
  case Nil
  then show ?case by simp
next
  case (Cons p sched)
  then obtain st1 where s: "step P p st = Some st1" and e: "exec P sched st1 = Some st'"
    by (auto split: option.splits)
  from Cons.prems s have "ginv P es st1" "cinv P es st1"
    by (auto intro: ginv_step cinv_step)
  with Cons.IH [OF Cons.prems(1) _ _ e] show ?case by simp
qed

lemma cinv_exec:
  "conforming P es \<Longrightarrow> exec P sched (init P es) = Some st \<Longrightarrow> cinv P es st"
  using cinv_exec_from [OF _ ginv_init cinv_init] by blast

lemma completes_from:
  assumes "conforming P es" and "0 < procs P \<or> es = []"
  shows "ginv P es st \<Longrightarrow> cinv P es st \<Longrightarrow>
         \<exists>sched st'. exec P sched st = Some st' \<and> returned (main st')"
proof (induction "mu P st" arbitrary: st rule: less_induct)
  case less
  show ?case
  proof (cases "returned (main st)")
    case True
    then have "exec P [] st = Some st \<and> returned (main st)" by simp
    then show ?thesis by blast
  next
    case False
    with assms less.prems have "enabled P st" by (intro progress)
    then obtain p st1 where s: "step P p st = Some st1"
      by (auto simp: enabled_iff)
    with less.prems assms(1) have "ginv P es st1" "cinv P es st1"
      by (auto intro: ginv_step cinv_step)
    with less.hyps [OF mu_step [OF s]] obtain sched st' where
      "exec P sched st1 = Some st'" "returned (main st')" by blast
    with s have "exec P (p # sched) st = Some st' \<and> returned (main st')" by simp
    then show ?thesis by blast
  qed
qed

lemma crashed_stuck: "i < length (workers st) \<Longrightarrow> workers st ! i = Crashed e \<Longrightarrow> step P (Worker i) st = None"
  by (simp add: step_worker_def)

lemma crashed_persists_step:
  assumes "i < length (workers st)" "workers st ! i = Crashed e" "step P p st = Some st'"
  shows "i < length (workers st') \<and> workers st' ! i = Crashed e"
proof (cases p)
  case Main
  with assms(3) have "step_main P st = Some st'" by simp
  then show ?thesis
    using assms(1,2) by (cases rule: step_main_cases) (simp_all add: terminate_def)
next
  case (Worker j)
  with assms(3) have "step_worker P j st = Some st'" by simp
  then show ?thesis
    using assms(1,2)
    by (cases rule: step_worker_cases) (cases "i = j"; simp)+
qed

lemma crashed_persists_exec:
  "i < length (workers st) \<Longrightarrow> workers st ! i = Crashed e \<Longrightarrow> exec P sched st = Some st'
   \<Longrightarrow> i < length (workers st') \<and> workers st' ! i = Crashed e"
proof (induction sched arbitrary: st)
  case Nil
  then show ?case by simp
next
  case (Cons p sched)
  then obtain st1 where s: "step P p st = Some st1" and e: "exec P sched st1 = Some st'"
    by (auto split: option.splits)
  from crashed_persists_step [OF Cons.prems(1,2) s] Cons.IH [OF _ _ e] show ?case by simp
qed

lemma crashed_blocks:
  assumes "ginv P es st" "i < length (workers st)" "workers st ! i = Crashed e"
  shows "\<not> returned (main st)" "Killed \<notin> set (workers st)"
    "length (collected (main st)) < length es"
proof -
  have "0 < crashed_count (workers st)"
    using assms(2,3) by (intro crashed_count_pos [of i]) (simp_all add: crashed_def)
  moreover from assms(1) have "size (in_transit st) + crashed_count (workers st) \<le> length es"
    by (simp add: ginv_def)
  moreover have "length (collected (main st)) \<le> size (in_transit st)"
    by (simp add: in_transit_def)
  ultimately show c: "length (collected (main st)) < length es" by simp
  from assms(1) have "counters_ok (length es) (main st)" by (simp add: ginv_def)
  with c show nr: "\<not> returned (main st)"
    by (cases "main st") (simp_all add: returned_def counters_ok_def collected_def)
  with assms(1) show "Killed \<notin> set (workers st)" by (simp add: ginv_def)
qed

lemma not_crashed_all: "crashed_count ws = 0 \<Longrightarrow> w \<in> set ws \<Longrightarrow> \<not> crashed w"
  using crashed_count_pos [of _ ws] by (fastforce simp: in_set_conv_nth)

lemma returned_workers:
  assumes "ginv P es st" "returned (main st)"
  shows "list_all (\<lambda>w. w = Exited \<or> w = Killed) (workers st)"
proof -
  from assms(2) obtain acc where "main st = Returned acc"
    by (cases "main st") (simp_all add: returned_def)
  from returned_all(3) [OF assms(1) this] have "crashed_count (workers st) = 0" .
  then have nc: "\<not> crashed w" if "w \<in> set (workers st)" for w
    using that by (rule not_crashed_all)
  from assms have na: "\<not> alive w" if "w \<in> set (workers st)" for w
    using that by (simp add: ginv_def list_all_iff)
  have "w = Exited \<or> w = Killed" if "w \<in> set (workers st)" for w
    using nc [OF that] na [OF that] by (cases w) (simp_all add: crashed_def)
  then show ?thesis by (simp add: list_all_iff)
qed

lemma waiting_worker_served:
  assumes "ginv P es st" "cinv P es st" "\<not> returned (main st)" "to_send P (main st) = 0"
    and "i < length (workers st)" "workers st ! i = Get d"
  shows "step P (Worker i) st \<noteq> None"
proof -
  from assms(2,3) have
    cnt: "sentinels_in (in_q st) + finishing_count (workers st) + to_send P (main st) = procs P"
    by (simp add: cinv_def)
  from assms(1) have len: "length (workers st) = procs P" by (simp add: ginv_def)
  have "finishing_count (workers st) < length (workers st)"
    using assms(5,6) by (intro finishing_count_lt [of i]) simp_all
  with cnt len assms(4) have "0 < sentinels_in (in_q st)" by simp
  then have "in_q st \<noteq> []" by auto
  with assms(5,6) show ?thesis
    by (cases "in_q st") (simp_all add: step_worker_def)
qed

section \<open>The claims\<close>



text \<open>
  C2. Whenever the dispatcher returns, it returns exactly as many pairs as elements were
  sent, and the elements of the pairs, hence their identities, are those sent, each as
  often as it was sent: none is missing and none is duplicated. No execution has more
  than \<open>6 * N + 6 * procs + 3\<close> moves. When the parameters and the elements fit and there
  is a worker (or nothing to send), some process can move as long as the dispatcher has
  not returned, and every execution can be continued to one in which it has: so the
  dispatcher returns, for every number of elements and every batch size.
\<close>

theorem dispatcher_returns_every_element:
  assumes "exec P sched (init P es) = Some st"
  shows "(main st = Returned acc \<longrightarrow>
            length acc = length es \<and> mset (map snd acc) = mset es \<and>
            mset (map (uuid \<circ> snd) acc) = mset (map uuid es))
       \<and> length sched \<le> 6 * length es + 6 * procs P + 3
       \<and> (conforming P es \<and> (0 < procs P \<or> es = []) \<longrightarrow>
            (\<not> returned (main st) \<longrightarrow> enabled P st) \<and>
            (\<exists>sched' st' acc'. exec P sched' st = Some st' \<and> main st' = Returned acc'))"
proof -
  from assms have g: "ginv P es st" by (rule ginv_exec)
  have a: "length acc = length es \<and> mset (map snd acc) = mset es \<and>
            mset (map (uuid \<circ> snd) acc) = mset (map uuid es)"
    if r: "main st = Returned acc"
  proof -
    from returned_all(1,2) [OF g r] have l: "length acc = length es"
      and m: "mset (map snd acc) = mset es" by simp_all
    have "mset (map (uuid \<circ> snd) acc) = image_mset uuid (mset (map snd acc))"
      by (simp add: multiset.map_comp)
    also have "\<dots> = mset (map uuid es)"
      unfolding m by simp
    finally show ?thesis using l m by simp
  qed
  have b: "length sched \<le> 6 * length es + 6 * procs P + 3"
    using assms by (rule exec_bounded)
  have c: "(\<not> returned (main st) \<longrightarrow> enabled P st) \<and>
            (\<exists>sched' st' acc'. exec P sched' st = Some st' \<and> main st' = Returned acc')"
    if h: "conforming P es \<and> (0 < procs P \<or> es = [])"
  proof -
    from h assms have ci: "cinv P es st" by (intro cinv_exec) simp_all
    from h g ci have "enabled P st" if "\<not> returned (main st)"
      using that by (intro progress) simp_all
    moreover from completes_from [OF _ _ g ci] h obtain sched' st' where
      "exec P sched' st = Some st'" "returned (main st')" by blast
    then have "\<exists>sched' st' acc'. exec P sched' st = Some st' \<and> main st' = Returned acc'"
      by (cases "main st'") (auto simp: returned_def)
    ultimately show ?thesis by blast
  qed
  from a b c show ?thesis by blast
qed

theorem dispatcher_returns_every_element_witness:
  "conforming ex_P ex_es \<and> 0 < procs ex_P
   \<and> exec ex_P ex_sched (init ex_P ex_es)
     = Some \<lparr>main = Returned [(3, ex_elem 1 3 4), (0, ex_elem 2 0 5), (1, ex_elem 3 0 1)],
             in_q = [], out_q = [], workers = [Exited, Exited]\<rparr>
   \<and> length [(3 :: int, ex_elem 1 3 4), (0, ex_elem 2 0 5), (1, ex_elem 3 0 1)] = length ex_es
   \<and> mset (map snd [(3 :: int, ex_elem 1 3 4), (0, ex_elem 2 0 5), (1, ex_elem 3 0 1)])
       = mset ex_es
   \<and> length ex_sched \<le> 6 * length ex_es + 6 * procs ex_P + 3
   \<and> exec ex_P (take 18 ex_sched) (init ex_P ex_es)
     = Some \<lparr>main = Collecting 1 [(3, ex_elem 1 3 4), (0, ex_elem 2 0 5)], in_q = [PNone],
             out_q = [(1, ex_elem 3 0 1)], workers = [Get [], Exited]\<rparr>
   \<and> enabled ex_P \<lparr>main = Collecting 1 [(3, ex_elem 1 3 4), (0, ex_elem 2 0 5)],
             in_q = [PNone], out_q = [(1, ex_elem 3 0 1)], workers = [Get [], Exited]\<rparr>"
proof -
  let ?acc = "[(3 :: int, ex_elem 1 3 4), (0, ex_elem 2 0 5), (1, ex_elem 3 0 1)]"
  let ?st = "\<lparr>main = Returned ?acc, in_q = [], out_q = [], workers = [Exited, Exited]\<rparr>"
  let ?mid = "\<lparr>main = Collecting 1 [(3, ex_elem 1 3 4), (0, ex_elem 2 0 5)], in_q = [PNone],
             out_q = [(1, ex_elem 3 0 1)], workers = [Get [], Exited]\<rparr>"
  have c: "conforming ex_P ex_es" by code_simp
  have p: "0 < procs ex_P" by code_simp
  then have p': "0 < procs ex_P \<or> ex_es = []" ..
  have e: "exec ex_P ex_sched (init ex_P ex_es) = Some ?st" by code_simp
  have e': "exec ex_P (take 18 ex_sched) (init ex_P ex_es) = Some ?mid" by code_simp
  have m: "main ?st = Returned ?acc" by simp
  have nr: "\<not> returned (main ?mid)" by (simp add: returned_def)
  note t = dispatcher_returns_every_element [OF e, of ?acc]
  note r = t [THEN conjunct1, THEN mp, OF m]
  note u = dispatcher_returns_every_element [OF e', THEN conjunct2, THEN conjunct2, THEN mp,
      OF conjI, OF c p', THEN conjunct1, THEN mp, OF nr]
  from c p e r [THEN conjunct1] r [THEN conjunct2, THEN conjunct1]
    t [THEN conjunct2, THEN conjunct1] e' u
  show ?thesis by (intro conjI)
qed

text \<open>
  C3, as the code has it. The dispatcher has no means of noticing that a worker has
  failed. With two workers and one element whose vector is too long, worker 0 fails;
  the dispatcher stays in its collecting loop with nothing collected, worker 1 is not
  terminated and returns by itself on its terminal value, and then no process can move:
  the call neither fails nor returns.
\<close>

theorem failed_worker_goes_unnoticed:
  "exec ex_P ex_sched_crash (init ex_P [ex_long])
     = Some \<lparr>main = Collecting 1 [], in_q = [PNone], out_q = [],
             workers = [Crashed ValueError, Get []]\<rparr>
   \<and> exec ex_P (ex_sched_crash @ [Worker 1]) (init ex_P [ex_long])
     = Some \<lparr>main = Collecting 1 [], in_q = [], out_q = [],
             workers = [Crashed ValueError, Exited]\<rparr>
   \<and> \<not> enabled ex_P \<lparr>main = Collecting 1 [], in_q = [], out_q = [],
             workers = [Crashed ValueError, Exited]\<rparr>"
  by code_simp

text \<open>
  C3, amended. Once a worker has failed, in every continuation of the execution that
  worker stays failed, the dispatcher has not returned (so no partial result reaches the
  caller), it has terminated no worker, and it has collected fewer pairs than elements
  were sent.
\<close>

theorem worker_failure_blocks_dispatcher:
  assumes "exec P sched (init P es) = Some st" and "i < length (workers st)"
    and "workers st ! i = Crashed e" and "exec P sched' st = Some st'"
  shows "workers st' ! i = Crashed e \<and> main st' \<noteq> Returned acc \<and>
         Killed \<notin> set (workers st') \<and> length (collected (main st')) < length es"
proof -
  from assms(1,4) have "exec P (sched @ sched') (init P es) = Some st'"
    by (simp add: exec_append)
  then have g: "ginv P es st'" by (rule ginv_exec)
  from crashed_persists_exec [OF assms(2,3,4)]
  have i: "i < length (workers st')" and c: "workers st' ! i = Crashed e" by simp_all
  from crashed_blocks [OF g i c] c show ?thesis
    by (auto simp: returned_def)
qed

theorem worker_failure_blocks_dispatcher_witness:
  "exec ex_P ex_sched_crash (init ex_P [ex_long])
     = Some \<lparr>main = Collecting 1 [], in_q = [PNone], out_q = [],
             workers = [Crashed ValueError, Get []]\<rparr>
   \<and> exec ex_P [Worker 1] \<lparr>main = Collecting 1 [], in_q = [PNone], out_q = [],
             workers = [Crashed ValueError, Get []]\<rparr>
     = Some \<lparr>main = Collecting 1 [], in_q = [], out_q = [],
             workers = [Crashed ValueError, Exited]\<rparr>
   \<and> Killed \<notin> set (workers \<lparr>main = Collecting 1 [], in_q = [], out_q = [],
             workers = [Crashed ValueError, Exited]\<rparr>)
   \<and> length (collected (main \<lparr>main = Collecting 1 [], in_q = [], out_q = [],
             workers = [Crashed ValueError, Exited]\<rparr>)) < length [ex_long]"
proof -
  let ?st = "\<lparr>main = Collecting 1 [], in_q = [PNone], out_q = [],
             workers = [Crashed ValueError, Get []]\<rparr>"
  have e: "exec ex_P ex_sched_crash (init ex_P [ex_long]) = Some ?st" by code_simp
  have e': "exec ex_P [Worker 1] ?st
     = Some \<lparr>main = Collecting 1 [], in_q = [], out_q = [],
             workers = [Crashed ValueError, Exited]\<rparr>" by code_simp
  have i: "0 < length (workers ?st)" by simp
  have c: "workers ?st ! 0 = Crashed ValueError" by simp
  note t = worker_failure_blocks_dispatcher [OF e i c e']
  from e e' t [THEN conjunct2, THEN conjunct2, THEN conjunct1]
    t [THEN conjunct2, THEN conjunct2, THEN conjunct2]
  show ?thesis by (intro conjI)
qed

text \<open>
  C4. A worker that receives the terminal value while its batch is not empty runs the
  quantisation step on that batch, puts one pair per element of the batch and then
  returns. Consequently a worker that is handed any number of fitting elements followed
  by the terminal value, whatever the batch size, puts a pair for every one of them.
\<close>

theorem sentinel_flushes_partial_batch:
  "(d_elems \<noteq> [] \<and> smallcodes (np P) (rotation P) (m_vec P) d_elems = Inr outs \<longrightarrow>
      on_packet P d_elems PNone = Put outs False \<and> map snd outs = d_elems \<and>
      run P d_elems (PNone # ps) = (outs, Exited))
   \<and> (conforming P es \<longrightarrow>
        (\<exists>outs'. run P [] (map PElem es @ [PNone]) = (outs', Exited) \<and> map snd outs' = es))"
proof -
  have a: "on_packet P d_elems PNone = Put outs False \<and> map snd outs = d_elems \<and>
      run P d_elems (PNone # ps) = (outs, Exited)"
    if "d_elems \<noteq> []" "smallcodes (np P) (rotation P) (m_vec P) d_elems = Inr outs"
    using that by (simp add: on_packet_def after_loop_def smallcodes_snd)
  have b: "\<exists>outs'. run P [] (map PElem es @ [PNone]) = (outs', Exited) \<and> map snd outs' = es"
    if c: "conforming P es"
  proof -
    from c obtain outs' where r: "run P [] (map PElem es @ [PNone]) = (outs', Exited)"
      using run_conforming [of P "[]" es] by auto
    from c have "takeWhile py_bool (map PElem es @ [PNone]) = map PElem es"
      by (induction es) (simp_all add: conforming_def)
    with run_elems [OF r] have "map snd outs' = es" by simp
    with r show ?thesis by blast
  qed
  from a b show ?thesis by blast
qed

theorem sentinel_flushes_partial_batch_witness:
  "conforming ex_P ex_es \<and> length ex_es = 3 \<and> batch ex_P = 2
   \<and> run ex_P [] (map PElem ex_es @ [PNone])
       = ([(3, ex_elem 1 3 4), (0, ex_elem 2 0 5), (1, ex_elem 3 0 1)], Exited)
   \<and> smallcodes (np ex_P) (rotation ex_P) (m_vec ex_P) [ex_elem 3 0 1] = Inr [(1, ex_elem 3 0 1)]
   \<and> on_packet ex_P [ex_elem 3 0 1] PNone = Put [(1, ex_elem 3 0 1)] False"
proof -
  have c: "conforming ex_P ex_es" by code_simp
  have r: "run ex_P [] (map PElem ex_es @ [PNone])
       = ([(3, ex_elem 1 3 4), (0, ex_elem 2 0 5), (1, ex_elem 3 0 1)], Exited)" by code_simp
  have s: "smallcodes (np ex_P) (rotation ex_P) (m_vec ex_P) [ex_elem 3 0 1] = Inr [(1, ex_elem 3 0 1)]"
    by code_simp
  have l: "length ex_es = 3" "batch ex_P = 2" by code_simp+
  have ne: "[ex_elem 3 0 1] \<noteq> []" by simp
  have o: "on_packet ex_P [ex_elem 3 0 1] PNone = Put [(1, ex_elem 3 0 1)] False"
    by (rule sentinel_flushes_partial_batch
          [THEN conjunct1, THEN mp, OF conjI, OF ne s, THEN conjunct1])
  from c r s l o show ?thesis by (intro conjI)
qed

text \<open>
  C5. Every code the quantisation step produces is an integer between \<open>0\<close> and
  \<open>2 ^ B - 1\<close>, where \<open>B\<close> is the number of columns of the rotation.
\<close>

theorem code_range:
  "smallcodes ops R mean d_elems = Inr outs \<Longrightarrow>
   \<forall>(c, d) \<in> set outs. 0 \<le> c \<and> c \<le> 2 ^ ncols R - 1"
  using smallcodes_range [of ops R mean d_elems outs] by auto

theorem code_range_witness:
  "smallcodes ex_np ex_R [1, 4] [ex_elem 1 3 4, ex_elem 2 0 5] = Inr [(3, ex_elem 1 3 4), (0, ex_elem 2 0 5)]
   \<and> (0 :: int) \<le> 3 \<and> (3 :: int) \<le> 2 ^ ncols ex_R - 1
   \<and> (0 :: int) \<le> 0 \<and> (0 :: int) \<le> 2 ^ ncols ex_R - 1"
proof -
  have s: "smallcodes ex_np ex_R [1, 4] [ex_elem 1 3 4, ex_elem 2 0 5]
           = Inr [(3, ex_elem 1 3 4), (0, ex_elem 2 0 5)]" by code_simp
  from code_range [OF s] have
    "(0 :: int) \<le> 3 \<and> (3 :: int) \<le> 2 ^ ncols ex_R - 1
     \<and> (0 :: int) \<le> 0 \<and> (0 :: int) \<le> 2 ^ ncols ex_R - 1"
    by simp
  with s show ?thesis by (intro conjI) simp_all
qed

text \<open>
  C6. The quantisation step gives one code per vector of the batch, in the order of the
  batch, each computed from its own vector; and the elements of the pairs a worker puts
  on the output queue are, in order, an initial part of the elements it received (all
  of them once it has returned).
\<close>

theorem order_preserved:
  "(smallcodes ops R mean d_elems = Inr outs \<longrightarrow>
      length outs = length d_elems \<and> map snd outs = d_elems \<and>
      (\<exists>n. outs = map (\<lambda>d. (bit_vector_to_int
               (sign_bits (dot_row ops R (sub_row ops n (vector d) mean))), d)) d_elems))
   \<and> (run P d_elems' packets = (outs', w) \<longrightarrow>
        (\<exists>rest. map snd outs' @ rest = d_elems' @ packet_elems (takeWhile py_bool packets)) \<and>
        (w = Exited \<longrightarrow> map snd outs' = d_elems' @ packet_elems (takeWhile py_bool packets)))"
proof -
  have a: "length outs = length d_elems \<and> map snd outs = d_elems \<and>
      (\<exists>n. outs = map (\<lambda>d. (bit_vector_to_int
               (sign_bits (dot_row ops R (sub_row ops n (vector d) mean))), d)) d_elems)"
    if s: "smallcodes ops R mean d_elems = Inr outs"
  proof -
    from s obtain n where
      "outs = zip (map (\<lambda>d. bit_vector_to_int
                     (sign_bits (dot_row ops R (sub_row ops n (vector d) mean)))) d_elems) d_elems"
      by (auto simp: smallcodes_def Let_def split: if_splits option.splits)
    then have "outs = map (\<lambda>d. (bit_vector_to_int
               (sign_bits (dot_row ops R (sub_row ops n (vector d) mean))), d)) d_elems"
      by (simp add: zip_map1 zip_same_conv_map)
    with smallcodes_length [OF s] smallcodes_snd [OF s] show ?thesis
      by blast
  qed
  have b: "(\<exists>rest. map snd outs' @ rest = d_elems' @ packet_elems (takeWhile py_bool packets)) \<and>
        (w = Exited \<longrightarrow> map snd outs' = d_elems' @ packet_elems (takeWhile py_bool packets))"
    if r: "run P d_elems' packets = (outs', w)"
  proof -
    let ?all = "d_elems' @ packet_elems (takeWhile py_bool packets)"
    have "\<exists>rest. map snd outs' @ rest = ?all"
    proof (cases w)
      case (Get d')
      with run_elems [OF r] have "list_all py_bool packets"
        and e: "map snd outs' @ d' = d_elems' @ packet_elems packets" by simp_all
      then have tw: "takeWhile py_bool packets = packets"
        by (simp add: list_all_iff)
      have "map snd outs' @ d' = ?all"
        unfolding tw by (rule e)
      then show ?thesis ..
    next
      case (Put os again)
      with run_elems [OF r] show ?thesis by simp
    next
      case Exited
      with run_elems [OF r] have "map snd outs' @ [] = ?all" by simp
      then show ?thesis ..
    next
      case (Crashed e)
      with run_elems [OF r] obtain lost where "map snd outs' @ lost = ?all" by auto
      then show ?thesis ..
    next
      case Killed
      with run_elems [OF r] show ?thesis by simp
    qed
    moreover have "map snd outs' = ?all" if "w = Exited"
      using run_elems [OF r] that by simp
    ultimately show ?thesis by blast
  qed
  from a b show ?thesis by blast
qed

theorem order_preserved_witness:
  "smallcodes ex_np ex_R [1, 4] [ex_elem 1 3 4, ex_elem 2 0 5] = Inr [(3, ex_elem 1 3 4), (0, ex_elem 2 0 5)]
   \<and> length [(3 :: int, ex_elem 1 3 4), (0, ex_elem 2 0 5)] = length [ex_elem 1 3 4, ex_elem 2 0 5]
   \<and> run ex_P [] (map PElem ex_es @ [PNone])
       = ([(3, ex_elem 1 3 4), (0, ex_elem 2 0 5), (1, ex_elem 3 0 1)], Exited)
   \<and> map snd [(3 :: int, ex_elem 1 3 4), (0, ex_elem 2 0 5), (1, ex_elem 3 0 1)]
       = [] @ packet_elems (takeWhile py_bool (map PElem ex_es @ [PNone]))"
proof -
  have s: "smallcodes ex_np ex_R [1, 4] [ex_elem 1 3 4, ex_elem 2 0 5]
           = Inr [(3, ex_elem 1 3 4), (0, ex_elem 2 0 5)]" by code_simp
  have r: "run ex_P [] (map PElem ex_es @ [PNone])
       = ([(3, ex_elem 1 3 4), (0, ex_elem 2 0 5), (1, ex_elem 3 0 1)], Exited)" by code_simp
  have l: "length [(3 :: int, ex_elem 1 3 4), (0, ex_elem 2 0 5)]
           = length [ex_elem 1 3 4, ex_elem 2 0 5]"
    by (rule order_preserved [THEN conjunct1, THEN mp, OF s, THEN conjunct1])
  have t: "map snd [(3 :: int, ex_elem 1 3 4), (0, ex_elem 2 0 5), (1, ex_elem 3 0 1)]
       = [] @ packet_elems (takeWhile py_bool (map PElem ex_es @ [PNone]))"
    by (rule order_preserved [THEN conjunct2, THEN mp, OF r, THEN conjunct2, THEN mp, OF refl])
  from s l r t show ?thesis by (intro conjI)
qed

text \<open>
  C7, as the code has it. The \<^verbatim>\<open>finally\<close> block terminates every worker that is still
  alive when the dispatcher has collected its pairs, so a worker need not get to see its
  terminal value. With one worker and no element the dispatcher puts the terminal value,
  collects nothing and terminates the worker, which has not read the queue.
\<close>

theorem worker_killed_before_sentinel:
  "conforming ex_P1 []
   \<and> exec ex_P1 [Main, Main, Main, Main] (init ex_P1 [])
     = Some \<lparr>main = Returned [], in_q = [PNone], out_q = [], workers = [Killed]\<rparr>
   \<and> \<not> enabled ex_P1 \<lparr>main = Returned [], in_q = [PNone], out_q = [], workers = [Killed]\<rparr>"
  by code_simp

text \<open>
  C7, amended. What the dispatcher puts on the input queue is the elements followed by
  exactly \<open>procs\<close> terminal values. When the parameters and the elements fit, then until
  the dispatcher returns there is one terminal value, sent or still to be sent, for each
  worker that has not left its loop, and a worker that waits for a packet once the
  terminal values are sent finds one. When the dispatcher has returned every worker has
  returned by itself or was terminated by the dispatcher. No execution has more than
  \<open>6 * N + 6 * procs + 3\<close> moves.
\<close>

theorem sentinel_per_worker:
  assumes "exec P sched (init P es) = Some st"
  shows "(\<exists>consumed. consumed @ in_q st @ main_puts P (main st)
                    = map PElem es @ replicate (procs P) PNone)
       \<and> (conforming P es \<and> \<not> returned (main st) \<longrightarrow>
            sentinels_in (in_q st) + finishing_count (workers st) + to_send P (main st) = procs P
            \<and> (to_send P (main st) = 0 \<and> i < length (workers st) \<and> workers st ! i = Get d
                 \<longrightarrow> step P (Worker i) st \<noteq> None))
       \<and> (returned (main st) \<longrightarrow> list_all (\<lambda>w. w = Exited \<or> w = Killed) (workers st))
       \<and> length sched \<le> 6 * length es + 6 * procs P + 3"
proof -
  from assms have g: "ginv P es st" by (rule ginv_exec)
  then have a: "\<exists>consumed. consumed @ in_q st @ main_puts P (main st)
                    = map PElem es @ replicate (procs P) PNone"
    by (simp add: ginv_def)
  have b: "sentinels_in (in_q st) + finishing_count (workers st) + to_send P (main st) = procs P
            \<and> (to_send P (main st) = 0 \<and> i < length (workers st) \<and> workers st ! i = Get d
                 \<longrightarrow> step P (Worker i) st \<noteq> None)"
    if h: "conforming P es \<and> \<not> returned (main st)"
  proof -
    from h assms have ci: "cinv P es st" by (intro cinv_exec) simp_all
    with h have "sentinels_in (in_q st) + finishing_count (workers st) + to_send P (main st)
                 = procs P"
      by (simp add: cinv_def)
    moreover have "step P (Worker i) st \<noteq> None"
      if "to_send P (main st) = 0 \<and> i < length (workers st) \<and> workers st ! i = Get d"
      using that h by (intro waiting_worker_served [OF g ci]) simp_all
    ultimately show ?thesis by blast
  qed
  have c: "list_all (\<lambda>w. w = Exited \<or> w = Killed) (workers st)" if "returned (main st)"
    using g that by (rule returned_workers)
  have d: "length sched \<le> 6 * length es + 6 * procs P + 3"
    using assms by (rule exec_bounded)
  from a b c d show ?thesis by blast
qed

theorem sentinel_per_worker_witness:
  "conforming ex_P ex_es
   \<and> exec ex_P (take 18 ex_sched) (init ex_P ex_es)
     = Some \<lparr>main = Collecting 1 [(3, ex_elem 1 3 4), (0, ex_elem 2 0 5)], in_q = [PNone],
             out_q = [(1, ex_elem 3 0 1)], workers = [Get [], Exited]\<rparr>
   \<and> sentinels_in [PNone] + finishing_count [Get [], Exited]
       + to_send ex_P (Collecting 1 [(3, ex_elem 1 3 4), (0, ex_elem 2 0 5)]) = procs ex_P
   \<and> step ex_P (Worker 0) \<lparr>main = Collecting 1 [(3, ex_elem 1 3 4), (0, ex_elem 2 0 5)],
             in_q = [PNone], out_q = [(1, ex_elem 3 0 1)], workers = [Get [], Exited]\<rparr>
       \<noteq> None
   \<and> exec ex_P ex_sched (init ex_P ex_es)
     = Some \<lparr>main = Returned [(3, ex_elem 1 3 4), (0, ex_elem 2 0 5), (1, ex_elem 3 0 1)],
             in_q = [], out_q = [], workers = [Exited, Exited]\<rparr>
   \<and> list_all (\<lambda>w. w = Exited \<or> w = Killed) [Exited, Exited]"
proof -
  let ?mid = "\<lparr>main = Collecting 1 [(3, ex_elem 1 3 4), (0, ex_elem 2 0 5)], in_q = [PNone],
             out_q = [(1, ex_elem 3 0 1)], workers = [Get [], Exited]\<rparr>"
  let ?st = "\<lparr>main = Returned [(3, ex_elem 1 3 4), (0, ex_elem 2 0 5), (1, ex_elem 3 0 1)],
             in_q = [], out_q = [], workers = [Exited, Exited]\<rparr>"
  have c: "conforming ex_P ex_es" by code_simp
  have e: "exec ex_P (take 18 ex_sched) (init ex_P ex_es) = Some ?mid" by code_simp
  have e': "exec ex_P ex_sched (init ex_P ex_es) = Some ?st" by code_simp
  have nr: "\<not> returned (main ?mid)" by (simp add: returned_def)
  have r: "returned (main ?st)" by (simp add: returned_def)
  have w: "to_send ex_P (main ?mid) = 0 \<and> 0 < length (workers ?mid) \<and> workers ?mid ! 0 = Get []"
    by (simp add: to_send_def)
  note t = sentinel_per_worker [OF e, of 0 "[]", THEN conjunct2, THEN conjunct1, THEN mp,
      OF conjI, OF c nr]
  from t [THEN conjunct1]
  have n: "sentinels_in [PNone] + finishing_count [Get [], Exited]
       + to_send ex_P (Collecting 1 [(3, ex_elem 1 3 4), (0, ex_elem 2 0 5)]) = procs ex_P"
    by simp
  note s = t [THEN conjunct2, THEN mp, OF w]
  from sentinel_per_worker [OF e', THEN conjunct2, THEN conjunct2, THEN conjunct1, THEN mp, OF r]
  have l: "list_all (\<lambda>w. w = Exited \<or> w = Killed) [Exited, Exited]"
    by simp
  from c e n s e' l show ?thesis by (intro conjI)
qed

text \<open>
  C8. The output queue is created with the bound \<open>2 * procs\<close> and never holds more than
  \<open>2 * procs\<close> pairs in any state of any execution; the input queue has no bound, so the
  dispatcher can always make its next move while it sends elements and terminal values.
\<close>

theorem out_q_bounded:
  "exec P sched (init P es) = Some st \<Longrightarrow>
   length (out_q st) \<le> 2 * procs P \<and>
   (main st = Feeding rest s \<or> main st = Sentinels j s \<longrightarrow> step P Main st \<noteq> None)"
proof -
  assume "exec P sched (init P es) = Some st"
  then have "ginv P es st" by (rule ginv_exec)
  then have "length (out_q st) \<le> 2 * procs P" by (simp add: ginv_def)
  moreover have "step P Main st \<noteq> None" if "main st = Feeding rest s \<or> main st = Sentinels j s"
    using that by (cases rest; cases j) (auto simp: step_main_def)
  ultimately show ?thesis by blast
qed

theorem out_q_bounded_witness:
  "exec ex_P1 ex_sched_full (init ex_P1 ex_es)
     = Some \<lparr>main = Collecting 3 [], in_q = [],
             out_q = [(3, ex_elem 1 3 4), (0, ex_elem 2 0 5)],
             workers = [Put [(1, ex_elem 3 0 1)] False]\<rparr>
   \<and> length (out_q \<lparr>main = Collecting 3 [], in_q = [],
             out_q = [(3, ex_elem 1 3 4), (0, ex_elem 2 0 5)],
             workers = [Put [(1, ex_elem 3 0 1)] False]\<rparr>) \<le> 2 * procs ex_P1
   \<and> step ex_P1 (Worker 0) \<lparr>main = Collecting 3 [], in_q = [],
             out_q = [(3, ex_elem 1 3 4), (0, ex_elem 2 0 5)],
             workers = [Put [(1, ex_elem 3 0 1)] False]\<rparr> = None
   \<and> exec ex_P1 (take 2 ex_sched_full) (init ex_P1 ex_es)
     = Some \<lparr>main = Feeding [ex_elem 3 0 1] 2,
             in_q = [PElem (ex_elem 1 3 4), PElem (ex_elem 2 0 5)],
             out_q = [], workers = [Get []]\<rparr>
   \<and> step ex_P1 Main \<lparr>main = Feeding [ex_elem 3 0 1] 2,
             in_q = [PElem (ex_elem 1 3 4), PElem (ex_elem 2 0 5)],
             out_q = [], workers = [Get []]\<rparr> \<noteq> None"
proof -
  let ?feed = "\<lparr>main = Feeding [ex_elem 3 0 1] 2,
             in_q = [PElem (ex_elem 1 3 4), PElem (ex_elem 2 0 5)],
             out_q = [], workers = [Get []]\<rparr>"
  have e: "exec ex_P1 ex_sched_full (init ex_P1 ex_es)
     = Some \<lparr>main = Collecting 3 [], in_q = [],
             out_q = [(3, ex_elem 1 3 4), (0, ex_elem 2 0 5)],
             workers = [Put [(1, ex_elem 3 0 1)] False]\<rparr>" by code_simp
  have b: "step ex_P1 (Worker 0) \<lparr>main = Collecting 3 [], in_q = [],
             out_q = [(3, ex_elem 1 3 4), (0, ex_elem 2 0 5)],
             workers = [Put [(1, ex_elem 3 0 1)] False]\<rparr> = None" by code_simp
  have e': "exec ex_P1 (take 2 ex_sched_full) (init ex_P1 ex_es) = Some ?feed" by code_simp
  have m: "main ?feed = Feeding [ex_elem 3 0 1] 2 \<or> main ?feed = Sentinels 0 2" by simp
  note f = out_q_bounded [OF e', THEN conjunct2, THEN mp, OF m]
  from e out_q_bounded [OF e, THEN conjunct1] b e' f show ?thesis by (intro conjI)
qed

text \<open>
  C9, as the code has it. There is no check of the shapes: the failure is the
  \<^verbatim>\<open>ValueError\<close> that numpy raises, and numpy broadcasts. An element whose vector has
  length 1 is accepted although \<open>D = 2\<close>. And where the quantisation step does raise, for
  a batch of a good vector and one that is too long, only the worker ends: the dispatcher
  stays in its collecting loop and no process can move, so the run is not aborted.
\<close>

theorem length_one_accepted_run_not_aborted:
  "length (vector ex_short) \<noteq> nrows ex_R \<and> length [1, 4 :: real] = nrows ex_R
   \<and> wf_matrix ex_R \<and> smallcodes ex_np ex_R [1, 4] [ex_short] = Inr [(2, ex_short)]
   \<and> smallcodes (np ex_P1) (rotation ex_P1) (m_vec ex_P1) [ex_elem 1 3 4, ex_long]
       = Inl ValueError
   \<and> exec ex_P1 ex_sched_crash (init ex_P1 [ex_elem 1 3 4, ex_long])
       = Some \<lparr>main = Collecting 2 [], in_q = [PNone], out_q = [],
               workers = [Crashed ValueError]\<rparr>
   \<and> \<not> enabled ex_P1 \<lparr>main = Collecting 2 [], in_q = [PNone], out_q = [],
               workers = [Crashed ValueError]\<rparr>"
  by code_simp

text \<open>
  C9, amended. For a non-empty batch the quantisation step raises exactly when the
  vectors do not all have one length \<open>L\<close>, or \<open>L\<close> and the length of the mean vector are not
  equal and neither is 1, or the length they broadcast to is not the number of rows of
  the rotation. With a mean vector of length \<open>D\<close> and a rotation of \<open>D\<close> rows it raises
  whenever some vector's length differs from \<open>D\<close>, unless every vector of the batch has
  length 1; with a mean vector whose length is not the number \<open>D\<close> of rows of the rotation
  it raises unless that length is 1 and every vector has length \<open>D\<close>. The worker in which
  it raises puts no pair of that batch and never moves again, and the dispatcher does
  not return.
\<close>

theorem shape_mismatch_raises:
  assumes "d_elems \<noteq> []"
  shows "(smallcodes (np P) (rotation P) (m_vec P) d_elems = Inl ValueError \<longleftrightarrow>
           \<not> (\<exists>L. (\<forall>d \<in> set d_elems. length (vector d) = L) \<and>
                  (L = length (m_vec P) \<or> L = 1 \<or> length (m_vec P) = 1) \<and>
                  (if L = 1 then length (m_vec P) else L) = nrows (rotation P)))
       \<and> (length (m_vec P) = nrows (rotation P) \<longrightarrow>
            (smallcodes (np P) (rotation P) (m_vec P) d_elems = Inl ValueError \<longleftrightarrow>
               (\<exists>d \<in> set d_elems. length (vector d) \<noteq> nrows (rotation P)) \<and>
               (\<exists>d \<in> set d_elems. length (vector d) \<noteq> 1)))
       \<and> (length (m_vec P) \<noteq> nrows (rotation P) \<longrightarrow>
            (smallcodes (np P) (rotation P) (m_vec P) d_elems = Inl ValueError \<longleftrightarrow>
               \<not> (length (m_vec P) = 1 \<and>
                  (\<forall>d \<in> set d_elems. length (vector d) = nrows (rotation P)))))
       \<and> (smallcodes (np P) (rotation P) (m_vec P) d_elems = Inl ValueError \<longrightarrow>
            after_loop P d_elems = Crashed ValueError \<and>
            (batch P \<le> length d_elems \<longrightarrow> loop_body P d_elems = Crashed ValueError) \<and>
            run P d_elems (PNone # ps) = ([], Crashed ValueError))
       \<and> (exec P sched (init P es) = Some st \<and> i < length (workers st) \<and>
            workers st ! i = Crashed e \<longrightarrow>
              step P (Worker i) st = None \<and> main st \<noteq> Returned acc)"
proof -
  let ?raises = "smallcodes (np P) (rotation P) (m_vec P) d_elems = Inl ValueError"
  let ?m = "length (m_vec P)" and ?D = "nrows (rotation P)"
  have rl: "row_length d_elems = L" if "\<forall>d \<in> set d_elems. length (vector d) = L" for L
    using assms that by (rule row_length_all)
  have r: "?raises \<longleftrightarrow>
           \<not> ((\<forall>d \<in> set d_elems. length (vector d) = row_length d_elems) \<and>
              (row_length d_elems = ?m \<or> row_length d_elems = 1 \<or> ?m = 1) \<and>
              (if row_length d_elems = 1 then ?m else row_length d_elems) = ?D)"
    by (simp only: smallcodes_raises_iff broadcast_dim_iff)
  have q: "(\<exists>L. (\<forall>d \<in> set d_elems. length (vector d) = L) \<and>
                  (L = ?m \<or> L = 1 \<or> ?m = 1) \<and> (if L = 1 then ?m else L) = ?D)
           \<longleftrightarrow> ((\<forall>d \<in> set d_elems. length (vector d) = row_length d_elems) \<and>
              (row_length d_elems = ?m \<or> row_length d_elems = 1 \<or> ?m = 1) \<and>
              (if row_length d_elems = 1 then ?m else row_length d_elems) = ?D)"
    (is "?lhs \<longleftrightarrow> ?rhs")
  proof
    assume ?lhs
    then obtain L where L: "\<forall>d \<in> set d_elems. length (vector d) = L"
      "L = ?m \<or> L = 1 \<or> ?m = 1" "(if L = 1 then ?m else L) = ?D" by blast
    from rl [OF L(1)] have "L = row_length d_elems" by simp
    with L show ?rhs by (simp only:)
  next
    assume ?rhs
    then show ?lhs by (intro exI [of _ "row_length d_elems"])
  qed
  have a: "?raises \<longleftrightarrow>
           \<not> (\<exists>L. (\<forall>d \<in> set d_elems. length (vector d) = L) \<and>
                  (L = ?m \<or> L = 1 \<or> ?m = 1) \<and> (if L = 1 then ?m else L) = ?D)"
    by (simp only: r q)
  have b: "?raises \<longleftrightarrow>
               (\<exists>d \<in> set d_elems. length (vector d) \<noteq> ?D) \<and>
               (\<exists>d \<in> set d_elems. length (vector d) \<noteq> 1)"
    if m: "?m = ?D"
  proof -
    have "\<not> ?raises \<longleftrightarrow> (\<forall>d \<in> set d_elems. length (vector d) = ?D) \<or>
                         (\<forall>d \<in> set d_elems. length (vector d) = 1)"
      unfolding a using m by (auto split: if_splits)
    then show ?thesis by blast
  qed
  have c: "?raises \<longleftrightarrow> \<not> (?m = 1 \<and> (\<forall>d \<in> set d_elems. length (vector d) = ?D))"
    if m: "?m \<noteq> ?D"
  proof -
    have "(\<exists>L. (\<forall>d \<in> set d_elems. length (vector d) = L) \<and>
                  (L = ?m \<or> L = 1 \<or> ?m = 1) \<and> (if L = 1 then ?m else L) = ?D)
          \<longleftrightarrow> ?m = 1 \<and> (\<forall>d \<in> set d_elems. length (vector d) = ?D)"
      (is "?lhs \<longleftrightarrow> ?rhs")
    proof
      assume ?lhs
      then obtain L where "\<forall>d \<in> set d_elems. length (vector d) = L"
        "L = ?m \<or> L = 1 \<or> ?m = 1" "(if L = 1 then ?m else L) = ?D" by blast
      with m show ?rhs by (auto split: if_splits)
    next
      assume ?rhs
      with m have "(\<forall>d \<in> set d_elems. length (vector d) = ?D) \<and>
                  (?D = ?m \<or> ?D = 1 \<or> ?m = 1) \<and> (if ?D = 1 then ?m else ?D) = ?D"
        by auto
      then show ?lhs by (rule exI)
    qed
    with a show ?thesis by (simp only:)
  qed
  have d: "after_loop P d_elems = Crashed ValueError \<and>
            (batch P \<le> length d_elems \<longrightarrow> loop_body P d_elems = Crashed ValueError) \<and>
            run P d_elems (PNone # ps) = ([], Crashed ValueError)"
    if "?raises"
    using that assms by (simp add: after_loop_def loop_body_def on_packet_def)
  have e: "step P (Worker i) st = None \<and> main st \<noteq> Returned acc"
    if h: "exec P sched (init P es) = Some st \<and> i < length (workers st) \<and>
            workers st ! i = Crashed e"
  proof -
    from h have x: "exec P sched (init P es) = Some st"
      and i: "i < length (workers st)" and w: "workers st ! i = Crashed e" by simp_all
    from x have g: "ginv P es st" by (rule ginv_exec)
    from crashed_blocks(1) [OF g i w] have "\<not> returned (main st)" .
    then have "main st \<noteq> Returned acc" by (auto simp: returned_def)
    with h crashed_stuck [of i st e P] show ?thesis by simp
  qed
  from a b c d e show ?thesis by blast
qed

theorem shape_mismatch_raises_witness:
  "[ex_elem 1 3 4, ex_long] \<noteq> [] \<and> length (m_vec ex_P1) = nrows (rotation ex_P1)
   \<and> length (vector ex_long) \<noteq> nrows (rotation ex_P1) \<and> length (vector ex_long) \<noteq> 1
   \<and> smallcodes (np ex_P1) (rotation ex_P1) (m_vec ex_P1) [ex_elem 1 3 4, ex_long]
       = Inl ValueError
   \<and> loop_body ex_P1 [ex_elem 1 3 4, ex_long] = Crashed ValueError
   \<and> exec ex_P1 ex_sched_crash (init ex_P1 [ex_elem 1 3 4, ex_long])
       = Some \<lparr>main = Collecting 2 [], in_q = [PNone], out_q = [],
               workers = [Crashed ValueError]\<rparr>
   \<and> step ex_P1 (Worker 0) \<lparr>main = Collecting 2 [], in_q = [PNone], out_q = [],
               workers = [Crashed ValueError]\<rparr> = None"
proof -
  let ?ds = "[ex_elem 1 3 4, ex_long]"
  let ?st = "\<lparr>main = Collecting 2 [], in_q = [PNone], out_q = [],
               workers = [Crashed ValueError]\<rparr>"
  have ne: "?ds \<noteq> []" by simp
  have m: "length (m_vec ex_P1) = nrows (rotation ex_P1)" by code_simp
  have l1: "length (vector ex_long) \<noteq> nrows (rotation ex_P1)" by code_simp
  have l2: "length (vector ex_long) \<noteq> 1" by code_simp
  have mem: "ex_long \<in> set ?ds" by simp
  from mem l1 l2 have
    rhs: "(\<exists>d \<in> set ?ds. length (vector d) \<noteq> nrows (rotation ex_P1)) \<and>
          (\<exists>d \<in> set ?ds. length (vector d) \<noteq> 1)"
    by blast
  have b: "batch ex_P1 \<le> length ?ds" by code_simp
  have e: "exec ex_P1 ex_sched_crash (init ex_P1 ?ds) = Some ?st" by code_simp
  have i: "0 < length (workers ?st)" by simp
  have w: "workers ?st ! 0 = Crashed ValueError" by simp
  note t = shape_mismatch_raises [where d_elems = ?ds and P = ex_P1 and sched = ex_sched_crash
      and es = ?ds and st = ?st and i = 0 and e = ValueError, OF ne]
  note s = t [THEN conjunct2, THEN conjunct1, THEN mp, OF m, THEN iffD2, OF rhs]
  note d = t [THEN conjunct2, THEN conjunct2, THEN conjunct2, THEN conjunct1, THEN mp, OF s]
  note lb = d [THEN conjunct2, THEN conjunct1, THEN mp, OF b]
  note f = t [THEN conjunct2, THEN conjunct2, THEN conjunct2, THEN conjunct2, THEN mp,
      OF conjI, OF e conjI, OF i w, THEN conjunct1]
  from ne m l1 l2 s lb e f show ?thesis by (intro conjI)
qed

text \<open>
  C10. A worker leaves its loop at the first packet that is false for Python, whether it
  is the terminal value or an element: such a packet has the effect of the terminal
  value, the packets after it are never read, and the worker is not left waiting. A
  packet that is true is an element, it joins the batch, and the worker does not return
  on it.
\<close>

theorem falsy_packet_ends_worker:
  "(\<not> py_bool packet \<longrightarrow>
      run P d_elems (pre @ packet # rest) = run P d_elems (pre @ [PNone]) \<and>
      snd (run P d_elems (pre @ packet # rest)) \<noteq> Get d')
   \<and> (py_bool packet \<longrightarrow>
        (\<exists>de. packet = PElem de \<and> truthy de \<and>
              on_packet P d_elems packet = loop_body P (d_elems @ [de])) \<and>
        snd (run P d_elems [packet]) \<noteq> Exited)"
proof -
  have a: "run P d_elems (pre @ packet # rest) = run P d_elems (pre @ [PNone]) \<and>
      snd (run P d_elems (pre @ packet # rest)) \<noteq> Get d'"
    if f: "\<not> py_bool packet"
  proof -
    have "snd (run P d_elems (pre @ packet # rest)) \<noteq> Get d'"
    proof
      assume g: "snd (run P d_elems (pre @ packet # rest)) = Get d'"
      obtain outs where "run P d_elems (pre @ packet # rest) = (outs, Get d')"
        using g by (cases "run P d_elems (pre @ packet # rest)") simp
      from run_elems [OF this] have "list_all py_bool (pre @ packet # rest)" by simp
      with f show False by simp
    qed
    with run_falsy_as_sentinel [OF f] show ?thesis by blast
  qed
  have b: "(\<exists>de. packet = PElem de \<and> truthy de \<and>
              on_packet P d_elems packet = loop_body P (d_elems @ [de])) \<and>
        snd (run P d_elems [packet]) \<noteq> Exited"
    if t: "py_bool packet"
  proof -
    from t obtain de where de: "packet = PElem de" "truthy de"
      by (auto simp: py_bool_iff)
    have "snd (run P d_elems [packet]) \<noteq> Exited"
    proof
      assume g: "snd (run P d_elems [packet]) = Exited"
      obtain outs where "run P d_elems [packet] = (outs, Exited)"
        using g by (cases "run P d_elems [packet]") simp
      from run_elems [OF this] have "\<not> list_all py_bool [packet]" by simp
      with t show False by simp
    qed
    with de on_packet_truthy [OF de(2), of P d_elems] show ?thesis by blast
  qed
  from a b show ?thesis by blast
qed

theorem falsy_packet_ends_worker_witness:
  "\<not> py_bool (PElem ex_falsy)
   \<and> run ex_P [] ([PElem (ex_elem 1 3 4)] @ PElem ex_falsy # [PElem (ex_elem 2 0 5)])
       = run ex_P [] ([PElem (ex_elem 1 3 4)] @ [PNone])
   \<and> run ex_P [] ([PElem (ex_elem 1 3 4)] @ [PNone]) = ([(3, ex_elem 1 3 4)], Exited)
   \<and> py_bool (PElem (ex_elem 1 3 4))
   \<and> snd (run ex_P [] [PElem (ex_elem 1 3 4)]) \<noteq> Exited"
proof -
  have f: "\<not> py_bool (PElem ex_falsy)" by code_simp
  have t: "py_bool (PElem (ex_elem 1 3 4))" by code_simp
  have r: "run ex_P [] ([PElem (ex_elem 1 3 4)] @ [PNone]) = ([(3, ex_elem 1 3 4)], Exited)"
    by code_simp
  have e: "run ex_P [] ([PElem (ex_elem 1 3 4)] @ PElem ex_falsy # [PElem (ex_elem 2 0 5)])
       = run ex_P [] ([PElem (ex_elem 1 3 4)] @ [PNone])"
    by (rule falsy_packet_ends_worker [THEN conjunct1, THEN mp, OF f, THEN conjunct1])
  have n: "snd (run ex_P [] [PElem (ex_elem 1 3 4)]) \<noteq> Exited"
    by (rule falsy_packet_ends_worker [THEN conjunct2, THEN mp, OF t, THEN conjunct2])
  from f e r t n show ?thesis by (intro conjI)
qed

end
